theory Spec2Isabelle
  imports Complex_Main "HOL-Library.Multiset"
begin

section \<open>PopMap: the tile placement engine and the render grid\<close>

text \<open>
  A shallow embedding of \<^verbatim>\<open>src/lib/PopMapGenerator.ts\<close> (class \<^verbatim>\<open>PopMapGenerator\<close>) and of
  \<^verbatim>\<open>renderMap\<close> of the map component. JavaScript numbers that hold grid coordinates, tile
  counts and indices are integers here (\<^typ>\<open>int\<close>); distances are real numbers.
  The mutable fields of the generator object are threaded through as a record.
\<close>

subsection \<open>Data model\<close>

text \<open>\<^verbatim>\<open>Coordinate = { x: number; y: number }\<close>: a pair, first component \<^verbatim>\<open>x\<close>.\<close>

type_synonym Coordinate = "int \<times> int"

text \<open>
  \<^verbatim>\<open>GridCity = City & { centerX; centerY; numTiles }\<close>. Of \<^verbatim>\<open>City\<close> the generator reads the
  name and the population only once the grid coordinates are computed.
\<close>

record GridCity =
  name :: string
  population :: int
  centerX :: int
  centerY :: int
  numTiles :: int

record CityTiles =
  index :: nat
  cityName :: string
  tiles :: "Coordinate list"
  color :: string

text \<open>\<^verbatim>\<open>CandidateTile = { x; y; distanceToCenter }\<close>: the cell and its distance.\<close>

type_synonym CandidateTile = "Coordinate \<times> real"

text \<open>The fields of a \<^verbatim>\<open>PopMapGenerator\<close> object that placement reads and writes.\<close>

record PopMapGenerator =
  cities :: "GridCity list"
  gridWidth :: int
  gridHeight :: int
  takenCells :: "int set"
  cityTiles :: "CityTiles list"

definition NUM_TILES :: int where
  "NUM_TILES = 1024"

definition MAX_FALLBACK_CANDIDATES :: nat where
  "MAX_FALLBACK_CANDIDATES = 50"

definition COLOR_PALETTE :: "string list" where
  "COLOR_PALETTE =
    [''#ff6b6b'', ''#4ecdc4'', ''#45b7d1'', ''#96ceb4'', ''#feca57'',
     ''#ff9ff3'', ''#54a0ff'', ''#48dbfb'', ''#a29bfe'', ''#c8d6e5'']"

definition getColor :: "nat \<Rightarrow> string" where
  "getColor i = COLOR_PALETTE ! (i mod length COLOR_PALETTE)"

subsection \<open>Packed coordinates and the bounds check\<close>

definition packCoordinate :: "PopMapGenerator \<Rightarrow> int \<Rightarrow> int \<Rightarrow> int" where
  "packCoordinate this cx cy = cy * gridWidth this + cx"

text \<open>
  JavaScript's \<^verbatim>\<open>%\<close> takes the sign of the dividend; \<^verbatim>\<open>Math.floor(a / b)\<close> is the floor of
  the quotient. (A zero divisor gives \<^verbatim>\<open>NaN\<close> in the source; \<^verbatim>\<open>unpackCoordinate\<close> is only
  reached with a packed valid cell, and then the grid width is positive.)
\<close>

definition js_rem :: "int \<Rightarrow> int \<Rightarrow> int" where
  "js_rem a b = sgn a * (\<bar>a\<bar> mod \<bar>b\<bar>)"

definition unpackCoordinate :: "PopMapGenerator \<Rightarrow> int \<Rightarrow> Coordinate" where
  "unpackCoordinate this packed =
     (js_rem packed (gridWidth this), packed div gridWidth this)"

definition isValidCell :: "PopMapGenerator \<Rightarrow> int \<Rightarrow> int \<Rightarrow> bool" where
  "isValidCell this cx cy =
     (cx \<ge> 0 \<and> cx < gridWidth this \<and> cy \<ge> 0 \<and> cy < gridHeight this)"

definition claim :: "PopMapGenerator \<Rightarrow> Coordinate \<Rightarrow> PopMapGenerator" where
  "claim this c =
     this\<lparr>takenCells := insert (packCoordinate this (fst c) (snd c)) (takenCells this)\<rparr>"

subsection \<open>\<^verbatim>\<open>findNearestOpenCell\<close>\<close>

text \<open>
  The three nested loops, innermost first. Each returns as soon as a cell is found
  (\<^verbatim>\<open>return { x, y }\<close>); \<open>None\<close> means the loop ran to its end.
\<close>

fun nearest_dy ::
  "PopMapGenerator \<Rightarrow> int \<Rightarrow> int \<Rightarrow> int \<Rightarrow> int \<Rightarrow> int list \<Rightarrow> Coordinate option" where
  "nearest_dy this targetX targetY radius dx [] = None"
| "nearest_dy this targetX targetY radius dx (dy # dys) =
     (if \<bar>dx\<bar> = radius \<or> \<bar>dy\<bar> = radius then
        (if isValidCell this (targetX + dx) (targetY + dy) then
           (if packCoordinate this (targetX + dx) (targetY + dy) \<notin> takenCells this
            then Some (targetX + dx, targetY + dy)
            else nearest_dy this targetX targetY radius dx dys)
         else nearest_dy this targetX targetY radius dx dys)
      else nearest_dy this targetX targetY radius dx dys)"

fun nearest_dx ::
  "PopMapGenerator \<Rightarrow> int \<Rightarrow> int \<Rightarrow> int \<Rightarrow> int list \<Rightarrow> Coordinate option" where
  "nearest_dx this targetX targetY radius [] = None"
| "nearest_dx this targetX targetY radius (dx # dxs) =
     (case nearest_dy this targetX targetY radius dx [- radius .. radius] of
        Some c \<Rightarrow> Some c
      | None \<Rightarrow> nearest_dx this targetX targetY radius dxs)"

fun nearest_radius ::
  "PopMapGenerator \<Rightarrow> int \<Rightarrow> int \<Rightarrow> int list \<Rightarrow> Coordinate option" where
  "nearest_radius this targetX targetY [] = None"
| "nearest_radius this targetX targetY (radius # radii) =
     (case nearest_dx this targetX targetY radius [- radius .. radius] of
        Some c \<Rightarrow> Some c
      | None \<Rightarrow> nearest_radius this targetX targetY radii)"

text \<open>\<^verbatim>\<open>for (radius = 1; radius < Math.max(gridWidth, gridHeight); radius++)\<close>\<close>

definition findNearestOpenCell ::
  "PopMapGenerator \<Rightarrow> int \<Rightarrow> int \<Rightarrow> Coordinate option" where
  "findNearestOpenCell this targetX targetY =
     (if isValidCell this targetX targetY
         \<and> packCoordinate this targetX targetY \<notin> takenCells this
      then Some (targetX, targetY)
      else nearest_radius this targetX targetY
             [1 .. max (gridWidth this) (gridHeight this) - 1])"

subsection \<open>\<^verbatim>\<open>findBestNextCell\<close>\<close>

text \<open>
  \<^verbatim>\<open>adjacentCells\<close> is a JavaScript \<^verbatim>\<open>Set<number>\<close>, which is iterated in insertion order:
  a list without duplicates, \<^verbatim>\<open>add\<close> appending a value that is not yet a member.
\<close>

definition set_add :: "int list \<Rightarrow> int \<Rightarrow> int list" where
  "set_add s v = (if v \<in> set s then s else s @ [v])"

text \<open>The body of the innermost loop over the neighbours of one tile.\<close>

definition adjacent_step ::
  "PopMapGenerator \<Rightarrow> Coordinate \<Rightarrow> int \<Rightarrow> int \<Rightarrow> int list \<Rightarrow> int list" where
  "adjacent_step this tile dx dy adjacentCells =
     (if dx = 0 \<and> dy = 0 then adjacentCells
      else if isValidCell this (fst tile + dx) (snd tile + dy) then
        (if packCoordinate this (fst tile + dx) (snd tile + dy) \<notin> takenCells this
         then set_add adjacentCells (packCoordinate this (fst tile + dx) (snd tile + dy))
         else adjacentCells)
      else adjacentCells)"

text \<open>The loops over \<^verbatim>\<open>dx\<close> and \<^verbatim>\<open>dy\<close> from \<open>-1\<close> to \<open>1\<close>, for one tile.\<close>

definition adjacent_tile :: "PopMapGenerator \<Rightarrow> Coordinate \<Rightarrow> int list \<Rightarrow> int list" where
  "adjacent_tile this tile =
     fold (\<lambda>dx. fold (\<lambda>dy. adjacent_step this tile dx dy) [-1 .. 1]) [-1 .. 1]"

text \<open>\<^verbatim>\<open>for (const tile of existingTiles)\<close>, starting from the empty set.\<close>

definition collectAdjacent :: "PopMapGenerator \<Rightarrow> Coordinate list \<Rightarrow> int list" where
  "collectAdjacent this existingTiles = fold (adjacent_tile this) existingTiles []"

text \<open>
  \<^verbatim>\<open>Math.sqrt(Math.pow(x - centerX, 2) + Math.pow(y - centerY, 2))\<close>. The argument of the
  square root is an integer, computed exactly; the root is taken in the reals.
\<close>

definition distanceToCenter :: "int \<Rightarrow> int \<Rightarrow> Coordinate \<Rightarrow> real" where
  "distanceToCenter centerX' centerY' c =
     sqrt (of_int ((fst c - centerX')\<^sup>2 + (snd c - centerY')\<^sup>2))"

text \<open>
  The fallback spiral search. The loop state is the pair of \<^verbatim>\<open>candidates\<close> and \<^verbatim>\<open>found\<close>;
  \<^verbatim>\<open>break\<close> leaves the loop with the state reached. \<^verbatim>\<open>Math.floor(centerX)\<close> is \<^verbatim>\<open>centerX\<close>,
  an integer.
\<close>

fun fallback_dy ::
  "PopMapGenerator \<Rightarrow> int \<Rightarrow> int \<Rightarrow> int \<Rightarrow> int \<Rightarrow> CandidateTile list \<times> nat \<Rightarrow> int list
     \<Rightarrow> CandidateTile list \<times> nat" where
  "fallback_dy this centerX' centerY' radius dx st [] = st"
| "fallback_dy this centerX' centerY' radius dx (candidates, found) (dy # dys) =
     (if \<bar>dx\<bar> = radius \<or> \<bar>dy\<bar> = radius then
        (if isValidCell this (centerX' + dx) (centerY' + dy) then
           (if packCoordinate this (centerX' + dx) (centerY' + dy) \<notin> takenCells this then
              (if Suc found \<ge> MAX_FALLBACK_CANDIDATES
               then (candidates @ [((centerX' + dx, centerY' + dy),
                       distanceToCenter centerX' centerY' (centerX' + dx, centerY' + dy))],
                     Suc found)
               else fallback_dy this centerX' centerY' radius dx
                      (candidates @ [((centerX' + dx, centerY' + dy),
                         distanceToCenter centerX' centerY' (centerX' + dx, centerY' + dy))],
                       Suc found) dys)
            else fallback_dy this centerX' centerY' radius dx (candidates, found) dys)
         else fallback_dy this centerX' centerY' radius dx (candidates, found) dys)
      else fallback_dy this centerX' centerY' radius dx (candidates, found) dys)"

fun fallback_dx ::
  "PopMapGenerator \<Rightarrow> int \<Rightarrow> int \<Rightarrow> int \<Rightarrow> CandidateTile list \<times> nat \<Rightarrow> int list
     \<Rightarrow> CandidateTile list \<times> nat" where
  "fallback_dx this centerX' centerY' radius st [] = st"
| "fallback_dx this centerX' centerY' radius st (dx # dxs) =
     (let st' = fallback_dy this centerX' centerY' radius dx st [- radius .. radius]
      in if snd st' \<ge> MAX_FALLBACK_CANDIDATES then st'
         else fallback_dx this centerX' centerY' radius st' dxs)"

fun fallback_radius ::
  "PopMapGenerator \<Rightarrow> int \<Rightarrow> int \<Rightarrow> CandidateTile list \<times> nat \<Rightarrow> int list
     \<Rightarrow> CandidateTile list \<times> nat" where
  "fallback_radius this centerX' centerY' st [] = st"
| "fallback_radius this centerX' centerY' st (radius # radii) =
     (if snd st < MAX_FALLBACK_CANDIDATES
      then fallback_radius this centerX' centerY'
             (fallback_dx this centerX' centerY' radius st [- radius .. radius]) radii
      else st)"

text \<open>
  \<^verbatim>\<open>best = candidates[0]\<close>, replaced by a later candidate only when that one is strictly
  nearer; \<open>None\<close> is \<^verbatim>\<open>null\<close>.
\<close>

definition pickBest :: "CandidateTile list \<Rightarrow> Coordinate option" where
  "pickBest candidates =
     (case candidates of
        [] \<Rightarrow> None
      | c # cs \<Rightarrow> Some (fst (fold (\<lambda>c best. if snd c < snd best then c else best) cs c)))"

definition findBestNextCell ::
  "PopMapGenerator \<Rightarrow> int \<Rightarrow> int \<Rightarrow> Coordinate list \<Rightarrow> Coordinate option" where
  "findBestNextCell this centerX' centerY' existingTiles =
     (let adjacentCells = collectAdjacent this existingTiles
      in pickBest
           (if length adjacentCells > 0
            then map (\<lambda>packedCoord.
                        (unpackCoordinate this packedCoord,
                         distanceToCenter centerX' centerY' (unpackCoordinate this packedCoord)))
                   adjacentCells
            else fst (fallback_radius this centerX' centerY' ([], 0)
                        [0 .. max (gridWidth this) (gridHeight this) - 1])))"

subsection \<open>\<^verbatim>\<open>placeTiles\<close>, the constructor and \<^verbatim>\<open>generate\<close>\<close>

text \<open>
  The inner loop \<^verbatim>\<open>for (i = 1; i < city.numTiles; i++)\<close> runs at most \<open>numTiles - 1\<close> times
  (not at all when \<open>numTiles \<le> 1\<close>); the last argument counts the rounds that are left.
\<close>

fun growTiles ::
  "PopMapGenerator \<Rightarrow> GridCity \<Rightarrow> Coordinate list \<Rightarrow> nat \<Rightarrow> PopMapGenerator \<times> Coordinate list" where
  "growTiles this city tiles' 0 = (this, tiles')"
| "growTiles this city tiles' (Suc n) =
     (case findBestNextCell this (centerX city) (centerY city) tiles' of
        Some nextCell \<Rightarrow> growTiles (claim this nextCell) city (tiles' @ [nextCell]) n
      | None \<Rightarrow> (this, tiles'))"

text \<open>The tiles of one city: the body of the outer loop up to \<^verbatim>\<open>cityTiles.push\<close>.\<close>

definition cityFootprint ::
  "PopMapGenerator \<Rightarrow> GridCity \<Rightarrow> PopMapGenerator \<times> Coordinate list" where
  "cityFootprint this city =
     (case findNearestOpenCell this (centerX city) (centerY city) of
        Some startCell \<Rightarrow>
          growTiles (claim this startCell) city [startCell] (nat (numTiles city - 1))
      | None \<Rightarrow> (this, []))"

definition placeCity :: "PopMapGenerator \<Rightarrow> nat \<Rightarrow> GridCity \<Rightarrow> PopMapGenerator" where
  "placeCity this cityIndex city =
     (let (this', tiles') = cityFootprint this city
      in this'\<lparr>cityTiles := cityTiles this' @
           [\<lparr>index = cityIndex, cityName = name city, tiles = tiles',
             color = getColor cityIndex\<rparr>]\<rparr>)"

fun placeTiles_from :: "PopMapGenerator \<Rightarrow> nat \<Rightarrow> GridCity list \<Rightarrow> PopMapGenerator" where
  "placeTiles_from this cityIndex [] = this"
| "placeTiles_from this cityIndex (city # rest) =
     placeTiles_from (placeCity this cityIndex city) (Suc cityIndex) rest"

definition placeTiles :: "PopMapGenerator \<Rightarrow> PopMapGenerator" where
  "placeTiles this = placeTiles_from this 0 (cities this)"

text \<open>
  \<^verbatim>\<open>Math.round\<close> rounds to the nearest integer, a half towards \<open>+\<infinity>\<close>. The quota of a city,
  as \<^verbatim>\<open>convertCitiesToGridCoordinates\<close> computes it:
  \<^verbatim>\<open>Math.round(this.numTiles * (city.population / this.totalPopulation))\<close>, the quotient and
  the product taken exactly.
\<close>

definition Math_round :: "real \<Rightarrow> int" where
  "Math_round v = \<lfloor>v + 1 / 2\<rfloor>"

definition tileQuota :: "int \<Rightarrow> int \<Rightarrow> int" where
  "tileQuota population' totalPopulation =
     Math_round (of_int NUM_TILES * (of_int population' / of_int totalPopulation))"

text \<open>
  The constructor, from the cities in input order as \<^verbatim>\<open>convertCitiesToGridCoordinates\<close>
  returns them (\<^verbatim>\<open>cities.map\<close> keeps the order): it sorts them with
  \<^verbatim>\<open>this.cities.sort((a, b) => a.numTiles - b.numTiles)\<close>, a stable sort by ascending
  \<^verbatim>\<open>numTiles\<close>, and starts with no cell taken and no city placed.
\<close>

definition constructor :: "GridCity list \<Rightarrow> int \<Rightarrow> int \<Rightarrow> PopMapGenerator" where
  "constructor converted gridWidth' gridHeight' =
     \<lparr>cities = sort_key numTiles converted, gridWidth = gridWidth', gridHeight = gridHeight',
      takenCells = {}, cityTiles = []\<rparr>"

definition generate :: "PopMapGenerator \<Rightarrow> CityTiles list" where
  "generate this = cityTiles (placeTiles this)"

subsection \<open>\<^verbatim>\<open>renderMap\<close>: the render grid\<close>

text \<open>
  The part of \<^verbatim>\<open>renderMap\<close> that builds \<^verbatim>\<open>renderGrid\<close>, an array of \<^verbatim>\<open>renderGridHeight\<close>
  rows of \<^verbatim>\<open>renderGridWidth\<close> cells, \<^verbatim>\<open>null\<close> (\<open>None\<close>) or a city index. The grid dimensions
  \<^verbatim>\<open>Math.floor(generatorWidth / GRID_SIZE)\<close> and \<^verbatim>\<open>Math.floor(generatorHeight / GRID_SIZE)\<close>
  are the parameters \<open>gridWidth'\<close> and \<open>gridHeight'\<close>.
\<close>

type_synonym RenderGrid = "nat option list list"

definition initRenderGrid :: "nat \<Rightarrow> nat \<Rightarrow> RenderGrid" where
  "initRenderGrid renderGridWidth renderGridHeight =
     replicate renderGridHeight (replicate renderGridWidth None)"

text \<open>
  \<^verbatim>\<open>renderGrid[renderY][renderX] = cityData.index\<close>. With no row \<^verbatim>\<open>renderY\<close> the source
  throws a \<^verbatim>\<open>TypeError\<close> (\<open>None\<close>). A write beyond the columns of an existing row lands
  outside the \<^verbatim>\<open>renderGridWidth\<close> columns that are ever read, and leaves them as they are.
\<close>

definition fillTile :: "nat \<Rightarrow> RenderGrid \<Rightarrow> Coordinate \<Rightarrow> RenderGrid option" where
  "fillTile cityIndex renderGrid tile =
     (let renderX = fst tile * 2 + 1;
          renderY = snd tile * 2 + 1
      in if 0 \<le> renderY \<and> renderY < int (length renderGrid) then
           Some (if 0 \<le> renderX \<and> renderX < int (length (renderGrid ! nat renderY))
                 then renderGrid[nat renderY :=
                        (renderGrid ! nat renderY)[nat renderX := Some cityIndex]]
                 else renderGrid)
         else None)"

fun fillTiles :: "nat \<Rightarrow> RenderGrid \<Rightarrow> Coordinate list \<Rightarrow> RenderGrid option" where
  "fillTiles cityIndex renderGrid [] = Some renderGrid"
| "fillTiles cityIndex renderGrid (tile # rest) =
     (case fillTile cityIndex renderGrid tile of
        None \<Rightarrow> None
      | Some renderGrid' \<Rightarrow> fillTiles cityIndex renderGrid' rest)"

fun fillCities :: "RenderGrid \<Rightarrow> CityTiles list \<Rightarrow> RenderGrid option" where
  "fillCities renderGrid [] = Some renderGrid"
| "fillCities renderGrid (cityData # rest) =
     (case fillTiles (index cityData) renderGrid (tiles cityData) of
        None \<Rightarrow> None
      | Some renderGrid' \<Rightarrow> fillCities renderGrid' rest)"

text \<open>
  The body of the loops over the even positions \<open>(x, y)\<close>. All four reads and all three
  writes are in range there.
\<close>

definition borderStep :: "RenderGrid \<Rightarrow> nat \<Rightarrow> nat \<Rightarrow> RenderGrid" where
  "borderStep renderGrid x y =
     (let upLeft = renderGrid ! (y - 1) ! (x - 1);
          downLeft = renderGrid ! (y + 1) ! (x - 1);
          upRight = renderGrid ! (y - 1) ! (x + 1);
          downRight = renderGrid ! (y + 1) ! (x + 1)
      in if upLeft = None then renderGrid
         else
           (let g1 = (if upLeft = upRight
                      then renderGrid[y - 1 := (renderGrid ! (y - 1))[x := upLeft]]
                      else renderGrid);
                g2 = (if upLeft = downLeft
                      then g1[y := (g1 ! y)[x - 1 := upLeft]]
                      else g1)
            in if upLeft = upRight \<and> upLeft = downLeft \<and> upLeft = downLeft
                  \<and> upLeft = downRight
               then g2[y := (g2 ! y)[x := upLeft]]
               else g2))"

text \<open>The values of \<^verbatim>\<open>for (i = 2; i < n - 2; i += 2)\<close>.\<close>

definition evenIndices :: "nat \<Rightarrow> nat list" where
  "evenIndices n = filter even [2 ..< n - 2]"

definition fillBorders :: "RenderGrid \<Rightarrow> nat \<Rightarrow> nat \<Rightarrow> RenderGrid" where
  "fillBorders renderGrid renderGridWidth renderGridHeight =
     fold (\<lambda>y. fold (\<lambda>x g. borderStep g x y) (evenIndices renderGridWidth))
       (evenIndices renderGridHeight) renderGrid"

definition renderMap :: "CityTiles list \<Rightarrow> nat \<Rightarrow> nat \<Rightarrow> RenderGrid option" where
  "renderMap cityTiles' gridWidth' gridHeight' =
     (let renderGridWidth = gridWidth' * 2 + 1;
          renderGridHeight = gridHeight' * 2 + 1
      in case fillCities (initRenderGrid renderGridWidth renderGridHeight) cityTiles' of
           None \<Rightarrow> None
         | Some renderGrid \<Rightarrow> Some (fillBorders renderGrid renderGridWidth renderGridHeight))"

subsection \<open>Notions of the specification\<close>

text \<open>A cell is open when it is grid-valid and unclaimed.\<close>

definition is_open :: "PopMapGenerator \<Rightarrow> Coordinate \<Rightarrow> bool" where
  "is_open this c =
     (isValidCell this (fst c) (snd c) \<and> packCoordinate this (fst c) (snd c) \<notin> takenCells this)"

text \<open>
  The perimeter of the square of side \<open>2r + 1\<close>, as offsets, in the fixed scan order:
  \<open>dx\<close> from \<open>-r\<close> to \<open>r\<close> outside, \<open>dy\<close> from \<open>-r\<close> to \<open>r\<close> inside, keeping the offsets
  with \<open>|dx| = r\<close> or \<open>|dy| = r\<close>.
\<close>

definition ring_offsets :: "int \<Rightarrow> (int \<times> int) list" where
  "ring_offsets r =
     concat (map (\<lambda>dx. map (\<lambda>dy. (dx, dy)) (filter (\<lambda>dy. \<bar>dx\<bar> = r \<or> \<bar>dy\<bar> = r) [- r .. r]))
       [- r .. r])"

definition ring_cells :: "int \<Rightarrow> int \<Rightarrow> int \<Rightarrow> Coordinate list" where
  "ring_cells tx ty r = map (\<lambda>(dx, dy). (tx + dx, ty + dy)) (ring_offsets r)"

text \<open>The cells of the rings of the given radii, ring after ring.\<close>

definition scan_cells :: "int \<Rightarrow> int \<Rightarrow> int list \<Rightarrow> Coordinate list" where
  "scan_cells tx ty radii = concat (map (ring_cells tx ty) radii)"

text \<open>The packed key of a cell.\<close>

definition packed :: "PopMapGenerator \<Rightarrow> Coordinate \<Rightarrow> int" where
  "packed this c = packCoordinate this (fst c) (snd c)"

text \<open>
  The eight neighbours of a cell, and the adjacency frontier of a tile list: the open
  cells that are 8-directionally adjacent to one of its tiles.
\<close>

definition neighbours8 :: "Coordinate \<Rightarrow> Coordinate list" where
  "neighbours8 c =
     map (\<lambda>(dx, dy). (fst c + dx, snd c + dy))
       [(-1, -1), (-1, 0), (-1, 1), (0, -1), (0, 1), (1, -1), (1, 0), (1, 1)]"

definition frontier :: "PopMapGenerator \<Rightarrow> Coordinate list \<Rightarrow> Coordinate list" where
  "frontier this existingTiles = filter (is_open this) (concat (map neighbours8 existingTiles))"

text \<open>A cell with its distance to the centre.\<close>

definition candidate :: "int \<Rightarrow> int \<Rightarrow> Coordinate \<Rightarrow> CandidateTile" where
  "candidate cx cy c = (c, distanceToCenter cx cy c)"

text \<open>
  Auxiliary notions for the fallback search: the candidates held after scanning a list of
  cells, starting from \<open>candidates\<close> and never holding more than the cap; and the cells that
  one run of the inner loop visits.
\<close>

definition collected ::
  "PopMapGenerator \<Rightarrow> int \<Rightarrow> int \<Rightarrow> CandidateTile list \<Rightarrow> Coordinate list \<Rightarrow> CandidateTile list" where
  "collected this cx cy candidates cells =
     take MAX_FALLBACK_CANDIDATES
       (candidates @ map (candidate cx cy) (filter (is_open this) cells))"

definition row_cells :: "int \<Rightarrow> int \<Rightarrow> int \<Rightarrow> int \<Rightarrow> int list \<Rightarrow> Coordinate list" where
  "row_cells cx cy r dx dys =
     map (\<lambda>(dx, dy). (cx + dx, cy + dy))
       (map (\<lambda>dy. (dx, dy)) (filter (\<lambda>dy. \<bar>dx\<bar> = r \<or> \<bar>dy\<bar> = r) dys))"

text \<open>
  Invariants of placement: the tiles placed so far are pairwise different, grid-valid and
  recorded as taken; a step of placement leaves the grid and the city list as they are and
  only adds to the taken cells.
\<close>

definition placed_ok :: "PopMapGenerator \<Rightarrow> Coordinate list \<Rightarrow> bool" where
  "placed_ok this ts =
     (distinct ts \<and> list_all (\<lambda>c. isValidCell this (fst c) (snd c) \<and> packed this c \<in> takenCells this) ts)"

definition same_grid :: "PopMapGenerator \<Rightarrow> PopMapGenerator \<Rightarrow> bool" where
  "same_grid this this' =
     (gridWidth this' = gridWidth this \<and> gridHeight this' = gridHeight this
      \<and> cities this' = cities this \<and> cityTiles this' = cityTiles this
      \<and> takenCells this \<subseteq> takenCells this')"

definition all_tiles :: "PopMapGenerator \<Rightarrow> Coordinate list" where
  "all_tiles this = concat (map tiles (cityTiles this))"



subsection \<open>Example inputs\<close>

text \<open>Two cities of one tile each, both centred on the cell \<open>(0, 0)\<close>.\<close>

definition two_cities :: "GridCity list" where
  "two_cities =
     [\<lparr>name = ''b'', population = 1, centerX = 0, centerY = 0, numTiles = 1\<rparr>,
      \<lparr>name = ''a'', population = 1, centerX = 0, centerY = 0, numTiles = 1\<rparr>]"


definition crowded_cities :: "GridCity list" where
  "crowded_cities =
     [\<lparr>name = ''b'', population = 3, centerX = 1, centerY = 0, numTiles = 3\<rparr>,
      \<lparr>name = ''a'', population = 1, centerX = 0, centerY = 0, numTiles = 1\<rparr>]"

text \<open>Two small grids with the cell \<open>(0, 0)\<close> taken.\<close>

definition half_taken :: PopMapGenerator where
  "half_taken = \<lparr>cities = [], gridWidth = 2, gridHeight = 1, takenCells = {0}, cityTiles = []\<rparr>"

definition full_cell :: PopMapGenerator where
  "full_cell = \<lparr>cities = [], gridWidth = 1, gridHeight = 1, takenCells = {0}, cityTiles = []\<rparr>"

text \<open>
  A 2 by 2 grid with the cell \<open>(1, 1)\<close> taken, and a row of four cells with the first two
  taken.
\<close>

definition corner_taken :: PopMapGenerator where
  "corner_taken = \<lparr>cities = [], gridWidth = 2, gridHeight = 2, takenCells = {3}, cityTiles = []\<rparr>"


subsection \<open>Notions for the render grid\<close>

text \<open>
  The city index that the fill loop leaves for a tile: that of the last record listing it,
  since a later write replaces an earlier one. With pairwise disjoint tile lists it is the
  index of the one record that lists the tile.
\<close>

fun owner :: "CityTiles list \<Rightarrow> Coordinate \<Rightarrow> nat option" where
  "owner [] c = None"
| "owner (cityData # rest) c =
     (case owner rest c of
        Some k \<Rightarrow> Some k
      | None \<Rightarrow> if c \<in> set (tiles cityData) then Some (index cityData) else None)"

text \<open>The content of an odd render position \<open>(2x + 1, 2y + 1)\<close> after the fill loop.\<close>

definition tileAt :: "CityTiles list \<Rightarrow> nat \<Rightarrow> nat \<Rightarrow> nat option" where
  "tileAt cts rx ry =
     (if odd rx \<and> odd ry then owner cts (int (rx div 2), int (ry div 2)) else None)"

text \<open>Auxiliary notions: a grid of the given width and height, reading and writing a cell.\<close>

definition wf_grid :: "nat \<Rightarrow> nat \<Rightarrow> RenderGrid \<Rightarrow> bool" where
  "wf_grid w h g = (length g = h \<and> list_all (\<lambda>row. length row = w) g)"

definition cell :: "RenderGrid \<Rightarrow> nat \<Rightarrow> nat \<Rightarrow> nat option" where
  "cell g i j = g ! j ! i"

definition setCell :: "RenderGrid \<Rightarrow> nat \<Rightarrow> nat \<Rightarrow> nat option \<Rightarrow> RenderGrid" where
  "setCell g i j v = g[j := (g ! j)[i := v]]"

text \<open>A tile inside a grid of the given size.\<close>

definition valid_tile :: "nat \<Rightarrow> nat \<Rightarrow> Coordinate \<Rightarrow> bool" where
  "valid_tile gw gh c = (0 \<le> fst c \<and> fst c < int gw \<and> 0 \<le> snd c \<and> snd c < int gh)"

text \<open>
  The even position whose loop round writes a cell that is not a tile cell; and what that
  round leaves in the cell between up-left and up-right, in the cell between up-left and
  down-left, and in the even position itself, \<open>T\<close> giving the content of the tile cells.
\<close>

definition writer :: "nat \<Rightarrow> nat \<Rightarrow> nat \<times> nat" where
  "writer i j = (if even i then i else i + 1, if even j then j else j + 1)"

definition upBorder :: "(nat \<Rightarrow> nat \<Rightarrow> nat option) \<Rightarrow> nat \<Rightarrow> nat \<Rightarrow> nat option" where
  "upBorder T ex ey =
     (if T (ex - 1) (ey - 1) \<noteq> None \<and> T (ex - 1) (ey - 1) = T (ex + 1) (ey - 1)
      then T (ex - 1) (ey - 1) else None)"

definition leftBorder :: "(nat \<Rightarrow> nat \<Rightarrow> nat option) \<Rightarrow> nat \<Rightarrow> nat \<Rightarrow> nat option" where
  "leftBorder T ex ey =
     (if T (ex - 1) (ey - 1) \<noteq> None \<and> T (ex - 1) (ey - 1) = T (ex - 1) (ey + 1)
      then T (ex - 1) (ey - 1) else None)"

definition corner :: "(nat \<Rightarrow> nat \<Rightarrow> nat option) \<Rightarrow> nat \<Rightarrow> nat \<Rightarrow> nat option" where
  "corner T ex ey =
     (if T (ex - 1) (ey - 1) \<noteq> None \<and> T (ex - 1) (ey - 1) = T (ex + 1) (ey - 1)
         \<and> T (ex - 1) (ey - 1) = T (ex - 1) (ey + 1) \<and> T (ex - 1) (ey - 1) = T (ex + 1) (ey + 1)
      then T (ex - 1) (ey - 1) else None)"

definition borderCell :: "(nat \<Rightarrow> nat \<Rightarrow> nat option) \<Rightarrow> nat \<Rightarrow> nat \<Rightarrow> nat option" where
  "borderCell T i j =
     (if even i \<and> even j then corner T i j
      else if odd i \<and> even j then leftBorder T (i + 1) j
      else if even i \<and> odd j then upBorder T i (j + 1)
      else None)"

text \<open>The tile cells of the grid hold what \<open>T\<close> says.\<close>

definition tiles_kept :: "nat \<Rightarrow> nat \<Rightarrow> (nat \<Rightarrow> nat \<Rightarrow> nat option) \<Rightarrow> RenderGrid \<Rightarrow> bool" where
  "tiles_kept w h T g =
     (wf_grid w h g \<and> list_all (\<lambda>j. list_all (\<lambda>i. odd i \<and> odd j \<longrightarrow> cell g i j = T i j) [0 ..< w]) [0 ..< h])"

text \<open>
  An interior even render position: both coordinates even and at least two cells from
  every outer edge of a render grid of width \<open>w\<close> and height \<open>h\<close>.
\<close>

definition even_pos :: "nat \<Rightarrow> nat \<Rightarrow> nat \<times> nat \<Rightarrow> bool" where
  "even_pos w h p = (even (fst p) \<and> even (snd p) \<and> 2 \<le> fst p \<and> fst p + 2 < w
                     \<and> 2 \<le> snd p \<and> snd p + 2 < h)"

text \<open>
  The render grid as the specification describes it. A tile cell holds the index of the
  location that claims the tile. For an interior even position \<open>(ex, ey)\<close>, the cell
  \<open>(ex, ey - 1)\<close> holds up-left's index when up-left is assigned and equals up-right, the
  cell \<open>(ex - 1, ey)\<close> when up-left is assigned and equals down-left, and \<open>(ex, ey)\<close> itself
  when all four diagonal neighbours are assigned and equal. Every other cell is unassigned.
\<close>

definition renderCell :: "CityTiles list \<Rightarrow> nat \<Rightarrow> nat \<Rightarrow> nat \<Rightarrow> nat \<Rightarrow> nat option" where
  "renderCell cts w h rx ry =
     (if odd rx \<and> odd ry then tileAt cts rx ry
      else if even rx \<and> odd ry then
        (if even_pos w h (rx, ry + 1) then upBorder (tileAt cts) rx (ry + 1) else None)
      else if odd rx \<and> even ry then
        (if even_pos w h (rx + 1, ry) then leftBorder (tileAt cts) (rx + 1) ry else None)
      else
        (if even_pos w h (rx, ry) then corner (tileAt cts) rx ry else None))"

definition renderSpec :: "CityTiles list \<Rightarrow> nat \<Rightarrow> nat \<Rightarrow> RenderGrid" where
  "renderSpec cts gw gh =
     map (\<lambda>ry. map (\<lambda>rx. renderCell cts (gw * 2 + 1) (gh * 2 + 1) rx ry) [0 ..< gw * 2 + 1])
       [0 ..< gh * 2 + 1]"

text \<open>Example collections: a 2 by 2 block of one location, and a single tile.\<close>

definition block_tiles :: "CityTiles list" where
  "block_tiles =
     [\<lparr>index = 0, cityName = ''a'', tiles = [(1, 1), (2, 1), (1, 2), (2, 2)],
       color = ''#ff6b6b''\<rparr>]"

definition lone_tile :: "CityTiles list" where
  "lone_tile = [\<lparr>index = 0, cityName = ''a'', tiles = [(1, 1)], color = ''#ff6b6b''\<rparr>]"

section \<open>Properties\<close>

subsection \<open>Packing is injective on the grid\<close>

lemma pack_inj:
  assumes "isValidCell this a b" "isValidCell this c d"
    and "packCoordinate this a b = packCoordinate this c d"
  shows "a = c \<and> b = d"
proof -
  let ?w = "gridWidth this"
  from assms have w: "0 < ?w" and a: "0 \<le> a" "a < ?w" and c: "0 \<le> c" "c < ?w"
    and e: "b * ?w + a = d * ?w + c"
    by (auto simp: isValidCell_def packCoordinate_def)
  have "(b * ?w + a) div ?w = b" using a w by simp
  moreover have "(d * ?w + c) div ?w = d" using c w by simp
  ultimately have "b = d" using e by simp
  with e show ?thesis by simp
qed

lemma js_rem_nonneg: "0 \<le> a \<Longrightarrow> 0 < b \<Longrightarrow> js_rem a b = a mod b"
  by (cases "a = 0") (simp_all add: js_rem_def)

lemma unpack_pack:
  assumes "isValidCell this a b"
  shows "unpackCoordinate this (packCoordinate this a b) = (a, b)"
proof -
  let ?w = "gridWidth this"
  from assms have w: "0 < ?w" and a: "0 \<le> a" "a < ?w" and b: "0 \<le> b"
    by (auto simp: isValidCell_def)
  have p: "0 \<le> b * ?w + a" using a b w by simp
  have "(b * ?w + a) div ?w = b" using a w by simp
  moreover have "(b * ?w + a) mod ?w = a" using a w by simp
  ultimately show ?thesis
    using p w by (simp add: unpackCoordinate_def packCoordinate_def js_rem_nonneg)
qed

subsection \<open>Start-cell selection as a search along the scan order\<close>

lemma nearest_dy_find:
  "nearest_dy this tx ty r dx dys =
     List.find (is_open this)
       (map (\<lambda>(dx, dy). (tx + dx, ty + dy))
          (map (\<lambda>dy. (dx, dy)) (filter (\<lambda>dy. \<bar>dx\<bar> = r \<or> \<bar>dy\<bar> = r) dys)))"
  by (induction dys) (simp_all add: is_open_def)

lemma find_append:
  "List.find P (xs @ ys) = (case List.find P xs of Some a \<Rightarrow> Some a | None \<Rightarrow> List.find P ys)"
  by (induction xs) simp_all

lemma nearest_dx_find:
  "nearest_dx this tx ty r dxs =
     List.find (is_open this)
       (map (\<lambda>(dx, dy). (tx + dx, ty + dy))
          (concat (map (\<lambda>dx. map (\<lambda>dy. (dx, dy)) (filter (\<lambda>dy. \<bar>dx\<bar> = r \<or> \<bar>dy\<bar> = r) [- r .. r]))
             dxs)))"
  by (induction dxs) (simp_all add: nearest_dy_find find_append cong: option.case_cong)

lemma nearest_radius_find:
  "nearest_radius this tx ty radii = List.find (is_open this) (scan_cells tx ty radii)"
  by (induction radii)
     (simp_all add: scan_cells_def nearest_dx_find find_append ring_cells_def ring_offsets_def
        cong: option.case_cong)

lemma findNearestOpenCell_find:
  "findNearestOpenCell this tx ty =
     (if is_open this (tx, ty) then Some (tx, ty)
      else List.find (is_open this)
             (scan_cells tx ty [1 .. max (gridWidth this) (gridHeight this) - 1]))"
  by (simp add: findNearestOpenCell_def nearest_radius_find is_open_def)

lemma findNearestOpenCell_open:
  "findNearestOpenCell this tx ty = Some c \<Longrightarrow> is_open this c"
  by (auto simp: findNearestOpenCell_find find_Some_iff split: if_splits)

subsection \<open>The adjacency frontier\<close>

lemma upto_m1_1: "[-1 .. 1] = [-1, 0, 1::int]"
  by (simp add: upto_rec1)

lemma set_set_add: "set (set_add s v) = insert v (set s)"
  by (auto simp: set_add_def)

lemma distinct_set_add: "distinct s \<Longrightarrow> distinct (set_add s v)"
  by (simp add: set_add_def)

lemma set_adjacent_step:
  "set (adjacent_step this tile dx dy adj) =
     set adj \<union> (if (dx, dy) \<noteq> (0, 0) \<and> is_open this (fst tile + dx, snd tile + dy)
                then {packed this (fst tile + dx, snd tile + dy)} else {})"
  by (auto simp: adjacent_step_def set_set_add is_open_def packed_def)

lemma distinct_adjacent_step:
  "distinct adj \<Longrightarrow> distinct (adjacent_step this tile dx dy adj)"
  by (simp add: adjacent_step_def distinct_set_add)

lemma set_adjacent_tile:
  "set (adjacent_tile this tile adj) = set adj \<union> packed this ` set (filter (is_open this) (neighbours8 tile))"
  by (auto simp: adjacent_tile_def upto_m1_1 set_adjacent_step neighbours8_def)

lemma distinct_adjacent_tile:
  "distinct adj \<Longrightarrow> distinct (adjacent_tile this tile adj)"
  by (simp add: adjacent_tile_def upto_m1_1 distinct_adjacent_step)

lemma set_fold_adjacent_tile:
  "set (fold (adjacent_tile this) ts adj) = set adj \<union> packed this ` set (frontier this ts)"
  by (induction ts arbitrary: adj) (auto simp: set_adjacent_tile frontier_def)

lemma distinct_fold_adjacent_tile:
  "distinct adj \<Longrightarrow> distinct (fold (adjacent_tile this) ts adj)"
  by (induction ts arbitrary: adj) (simp_all add: distinct_adjacent_tile)

lemma collectAdjacent_fold: "collectAdjacent this ts = fold (adjacent_tile this) ts []"
  by (simp add: collectAdjacent_def)

lemma set_collectAdjacent:
  "set (collectAdjacent this ts) = packed this ` set (frontier this ts)"
  by (simp add: collectAdjacent_fold set_fold_adjacent_tile)

lemma distinct_collectAdjacent: "distinct (collectAdjacent this ts)"
  by (simp add: collectAdjacent_fold distinct_fold_adjacent_tile)

lemma frontier_open: "c \<in> set (frontier this ts) \<Longrightarrow> is_open this c"
  by (simp add: frontier_def)

lemma unpack_packed: "is_open this c \<Longrightarrow> unpackCoordinate this (packed this c) = c"
  using unpack_pack [of this "fst c" "snd c"] by (simp add: is_open_def packed_def)

subsection \<open>Choosing the nearest candidate\<close>

lemma fold_nearer_arg_min:
  "fst (fold (\<lambda>c best. if snd c < snd best then c else best) (map (candidate cx cy) cs)
          (candidate cx cy b)) =
   arg_min_list (distanceToCenter cx cy) (b # cs)"
proof (induction cs arbitrary: b)
  case Nil
  then show ?case by (simp add: candidate_def)
next
  case (Cons c cs)
  show ?case
  proof (cases "distanceToCenter cx cy c < distanceToCenter cx cy b")
    case True
    then show ?thesis
      using Cons.IH [of c]
      by (cases cs) (auto simp: candidate_def Let_def)
  next
    case False
    then show ?thesis
      using Cons.IH [of b]
      by (cases cs) (auto simp: candidate_def Let_def)
  qed
qed

lemma pickBest_arg_min:
  "pickBest (map (candidate cx cy) cs) =
     (if cs = [] then None else Some (arg_min_list (distanceToCenter cx cy) cs))"
  by (cases cs) (simp_all add: pickBest_def fold_nearer_arg_min)

lemma arg_min_list_least:
  fixes f :: "'a \<Rightarrow> real"
  shows "xs \<noteq> [] \<Longrightarrow> x \<in> set xs \<Longrightarrow> f (arg_min_list f xs) \<le> f x"
  using f_arg_min_list_f [of xs f] by simp

subsection \<open>The fallback search collects the first open cells of the scan\<close>

lemma fallback_dy_collected:
  "length cands < MAX_FALLBACK_CANDIDATES \<Longrightarrow>
   fallback_dy this cx cy r dx (cands, length cands) dys =
     (collected this cx cy cands (row_cells cx cy r dx dys),
      length (collected this cx cy cands (row_cells cx cy r dx dys)))"
proof (induction dys arbitrary: cands)
  case Nil
  then show ?case by (simp add: collected_def row_cells_def)
next
  case (Cons dy dys)
  let ?c = "(cx + dx, cy + dy)"
  show ?case
  proof (cases "(\<bar>dx\<bar> = r \<or> \<bar>dy\<bar> = r) \<and> is_open this ?c")
    case False
    then have "row_cells cx cy r dx (dy # dys) = row_cells cx cy r dx dys
      \<or> (row_cells cx cy r dx (dy # dys) = ?c # row_cells cx cy r dx dys \<and> \<not> is_open this ?c)"
      by (auto simp: row_cells_def)
    then have "collected this cx cy cands (row_cells cx cy r dx (dy # dys)) =
        collected this cx cy cands (row_cells cx cy r dx dys)"
      by (auto simp: collected_def)
    moreover have "fallback_dy this cx cy r dx (cands, length cands) (dy # dys) =
        fallback_dy this cx cy r dx (cands, length cands) dys"
      using False by (auto simp: is_open_def)
    ultimately show ?thesis using Cons.IH [OF Cons.prems] by simp
  next
    case True
    then have rc: "row_cells cx cy r dx (dy # dys) = ?c # row_cells cx cy r dx dys"
      by (auto simp: row_cells_def)
    have col: "collected this cx cy cands (row_cells cx cy r dx (dy # dys)) =
        take MAX_FALLBACK_CANDIDATES
          ((cands @ [candidate cx cy ?c]) @
             map (candidate cx cy) (filter (is_open this) (row_cells cx cy r dx dys)))"
      using True by (simp add: rc collected_def)
    show ?thesis
    proof (cases "Suc (length cands) \<ge> MAX_FALLBACK_CANDIDATES")
      case full: True
      with Cons.prems have len: "length (cands @ [candidate cx cy ?c]) = MAX_FALLBACK_CANDIDATES"
        by simp
      have "collected this cx cy cands (row_cells cx cy r dx (dy # dys)) = cands @ [candidate cx cy ?c]"
        unfolding col using len by (metis append_eq_conv_conj)
      moreover have "fallback_dy this cx cy r dx (cands, length cands) (dy # dys) =
          (cands @ [candidate cx cy ?c], Suc (length cands))"
        using True full by (auto simp: is_open_def candidate_def)
      ultimately show ?thesis by simp
    next
      case notfull: False
      then have "fallback_dy this cx cy r dx (cands, length cands) (dy # dys) =
          fallback_dy this cx cy r dx
            (cands @ [candidate cx cy ?c], length (cands @ [candidate cx cy ?c])) dys"
        using True by (auto simp: is_open_def candidate_def)
      moreover have "length (cands @ [candidate cx cy ?c]) < MAX_FALLBACK_CANDIDATES"
        using notfull by simp
      ultimately show ?thesis
        using Cons.IH [of "cands @ [candidate cx cy ?c]"] col
        by (simp add: collected_def)
    qed
  qed
qed


lemma collected_append_full:
  "MAX_FALLBACK_CANDIDATES \<le> length (collected this cx cy cands A) \<Longrightarrow>
   collected this cx cy cands (A @ B) = collected this cx cy cands A"
  by (simp add: collected_def)

lemma collected_append_notfull:
  "length (collected this cx cy cands A) < MAX_FALLBACK_CANDIDATES \<Longrightarrow>
   collected this cx cy cands (A @ B) = collected this cx cy (collected this cx cy cands A) B"
  by (simp add: collected_def)

lemma collected_full:
  "length cands = MAX_FALLBACK_CANDIDATES \<Longrightarrow> collected this cx cy cands B = cands"
  by (simp add: collected_def)

lemma collected_Nil: "length cands \<le> MAX_FALLBACK_CANDIDATES \<Longrightarrow> collected this cx cy cands [] = cands"
  by (simp add: collected_def)

lemma fallback_dx_collected:
  "length cands < MAX_FALLBACK_CANDIDATES \<Longrightarrow>
   fallback_dx this cx cy r (cands, length cands) dxs =
     (collected this cx cy cands (concat (map (\<lambda>dx. row_cells cx cy r dx [- r .. r]) dxs)),
      length (collected this cx cy cands (concat (map (\<lambda>dx. row_cells cx cy r dx [- r .. r]) dxs))))"
proof (induction dxs arbitrary: cands)
  case Nil
  then show ?case by (simp add: collected_Nil)
next
  case (Cons dx dxs)
  let ?A = "row_cells cx cy r dx [- r .. r]"
  let ?B = "concat (map (\<lambda>dx. row_cells cx cy r dx [- r .. r]) dxs)"
  let ?st = "collected this cx cy cands ?A"
  have dy: "fallback_dy this cx cy r dx (cands, length cands) [- r .. r] = (?st, length ?st)"
    using Cons.prems by (rule fallback_dy_collected)
  show ?case
  proof (cases "MAX_FALLBACK_CANDIDATES \<le> length ?st")
    case True
    then show ?thesis
      using dy collected_append_full [of this cx cy cands ?A ?B] by (simp add: Let_def)
  next
    case False
    then have lt: "length ?st < MAX_FALLBACK_CANDIDATES" by simp
    show ?thesis
      using dy False Cons.IH [OF lt] collected_append_notfull [OF lt, of ?B]
      by (simp add: Let_def)
  qed
qed

lemma ring_cells_rows:
  "ring_cells cx cy r = concat (map (\<lambda>dx. row_cells cx cy r dx [- r .. r]) [- r .. r])"
  by (simp add: ring_cells_def ring_offsets_def row_cells_def map_concat comp_def)

lemma fallback_radius_collected:
  "length cands \<le> MAX_FALLBACK_CANDIDATES \<Longrightarrow>
   fallback_radius this cx cy (cands, length cands) radii =
     (collected this cx cy cands (scan_cells cx cy radii),
      length (collected this cx cy cands (scan_cells cx cy radii)))"
proof (induction radii arbitrary: cands)
  case Nil
  then show ?case by (simp add: collected_Nil scan_cells_def)
next
  case (Cons r radii)
  let ?A = "ring_cells cx cy r"
  let ?B = "scan_cells cx cy radii"
  let ?st = "collected this cx cy cands ?A"
  have sc: "scan_cells cx cy (r # radii) = ?A @ ?B"
    by (simp add: scan_cells_def)
  show ?case
  proof (cases "length cands < MAX_FALLBACK_CANDIDATES")
    case False
    with Cons.prems have "length cands = MAX_FALLBACK_CANDIDATES" by simp
    then have "collected this cx cy cands (scan_cells cx cy (r # radii)) = cands"
      by (rule collected_full)
    then show ?thesis using False by simp
  next
    case True
    then have dx: "fallback_dx this cx cy r (cands, length cands) [- r .. r] = (?st, length ?st)"
      using fallback_dx_collected [of cands this cx cy r "[- r .. r]"]
      by (simp add: ring_cells_rows)
    have le: "length ?st \<le> MAX_FALLBACK_CANDIDATES"
      by (simp add: collected_def)
    show ?thesis
    proof (cases "MAX_FALLBACK_CANDIDATES \<le> length ?st")
      case full: True
      then have eq: "length ?st = MAX_FALLBACK_CANDIDATES" using le by simp
      have "collected this cx cy ?st ?B = ?st"
        using eq by (rule collected_full)
      then show ?thesis
        using True dx Cons.IH [OF le] collected_append_full [OF full, of ?B]
        by (simp add: sc)
    next
      case False
      then have lt: "length ?st < MAX_FALLBACK_CANDIDATES" by simp
      show ?thesis
        using True dx Cons.IH [OF le] collected_append_notfull [OF lt, of ?B]
        by (simp add: sc)
    qed
  qed
qed

lemma fallback_candidates:
  "fst (fallback_radius this cx cy ([], 0) radii) =
     map (candidate cx cy) (take MAX_FALLBACK_CANDIDATES (filter (is_open this) (scan_cells cx cy radii)))"
  using fallback_radius_collected [of "[]" this cx cy radii]
  by (simp add: collected_def take_map)

subsection \<open>What \<^verbatim>\<open>findBestNextCell\<close> returns\<close>

lemma collectAdjacent_Nil_iff: "collectAdjacent this ts = [] \<longleftrightarrow> frontier this ts = []"
proof -
  have "set (collectAdjacent this ts) = {} \<longleftrightarrow> set (frontier this ts) = {}"
    by (simp add: set_collectAdjacent)
  then show ?thesis by simp
qed

lemma adjacent_candidates:
  "map (\<lambda>p. (unpackCoordinate this p, distanceToCenter cx cy (unpackCoordinate this p)))
       (collectAdjacent this ts) =
   map (candidate cx cy) (map (unpackCoordinate this) (collectAdjacent this ts))"
  by (simp add: candidate_def comp_def)

lemma set_unpack_collectAdjacent:
  "set (map (unpackCoordinate this) (collectAdjacent this ts)) = set (frontier this ts)"
proof -
  have "unpackCoordinate this ` packed this ` set (frontier this ts) = set (frontier this ts)"
    using unpack_packed frontier_open by (force simp: image_iff)
  then show ?thesis by (simp add: set_collectAdjacent)
qed

lemma findBestNextCell_adjacent:
  assumes "frontier this ts \<noteq> []"
  shows "findBestNextCell this cx cy ts =
     Some (arg_min_list (distanceToCenter cx cy)
             (map (unpackCoordinate this) (collectAdjacent this ts)))"
proof -
  have ne: "collectAdjacent this ts \<noteq> []"
    using assms by (simp add: collectAdjacent_Nil_iff)
  then have "findBestNextCell this cx cy ts =
      pickBest (map (candidate cx cy) (map (unpackCoordinate this) (collectAdjacent this ts)))"
    unfolding findBestNextCell_def Let_def adjacent_candidates by simp
  also have "\<dots> = Some (arg_min_list (distanceToCenter cx cy)
             (map (unpackCoordinate this) (collectAdjacent this ts)))"
    unfolding pickBest_arg_min using ne by simp
  finally show ?thesis .
qed

lemma findBestNextCell_fallback:
  assumes "frontier this ts = []"
  shows "findBestNextCell this cx cy ts =
     pickBest (map (candidate cx cy)
             (take MAX_FALLBACK_CANDIDATES
                (filter (is_open this)
                   (scan_cells cx cy [0 .. max (gridWidth this) (gridHeight this) - 1]))))"
proof -
  have "collectAdjacent this ts = []"
    using assms by (simp add: collectAdjacent_Nil_iff)
  then show ?thesis
    unfolding findBestNextCell_def Let_def fallback_candidates by simp
qed

lemma findBestNextCell_frontier:
  assumes "frontier this ts \<noteq> []"
  shows "\<exists>c. findBestNextCell this cx cy ts = Some c \<and> c \<in> set (frontier this ts)
           \<and> (\<forall>c' \<in> set (frontier this ts). distanceToCenter cx cy c \<le> distanceToCenter cx cy c')"
proof -
  let ?cs = "map (unpackCoordinate this) (collectAdjacent this ts)"
  let ?b = "arg_min_list (distanceToCenter cx cy) ?cs"
  have ne: "?cs \<noteq> []" using assms by (simp add: collectAdjacent_Nil_iff)
  have s: "set ?cs = set (frontier this ts)" by (rule set_unpack_collectAdjacent)
  have 1: "findBestNextCell this cx cy ts = Some ?b"
    by (rule findBestNextCell_adjacent [OF assms])
  have "?b \<in> set ?cs"
    using ne by (rule arg_min_list_in)
  then have 2: "?b \<in> set (frontier this ts)"
    unfolding s .
  have 3: "\<forall>c' \<in> set (frontier this ts). distanceToCenter cx cy ?b \<le> distanceToCenter cx cy c'"
  proof
    fix c' assume "c' \<in> set (frontier this ts)"
    then have "c' \<in> set ?cs" unfolding s .
    with ne show "distanceToCenter cx cy ?b \<le> distanceToCenter cx cy c'"
      by (rule arg_min_list_least)
  qed
  from 1 2 3 show ?thesis by (intro exI conjI)
qed

lemma findBestNextCell_open:
  assumes "findBestNextCell this cx cy ts = Some c"
  shows "is_open this c"
proof (cases "frontier this ts = []")
  case False
  from findBestNextCell_frontier [OF False, of cx cy]
  obtain c' where "findBestNextCell this cx cy ts = Some c'" and "c' \<in> set (frontier this ts)"
    by blast
  with assms have "c \<in> set (frontier this ts)" by simp
  then show ?thesis by (rule frontier_open)
next
  case True
  let ?cs = "take MAX_FALLBACK_CANDIDATES
                (filter (is_open this)
                   (scan_cells cx cy [0 .. max (gridWidth this) (gridHeight this) - 1]))"
  have eq: "findBestNextCell this cx cy ts =
      (if ?cs = [] then None else Some (arg_min_list (distanceToCenter cx cy) ?cs))"
    unfolding findBestNextCell_fallback [OF True] pickBest_arg_min ..
  have ne: "?cs \<noteq> []"
  proof
    assume "?cs = []"
    then have "findBestNextCell this cx cy ts = None" unfolding eq by (rule if_P)
    with assms show False by simp
  qed
  then have "findBestNextCell this cx cy ts = Some (arg_min_list (distanceToCenter cx cy) ?cs)"
    unfolding eq by (rule if_not_P)
  with assms have c: "c = arg_min_list (distanceToCenter cx cy) ?cs"
    by simp
  have "c \<in> set ?cs" unfolding c using ne by (rule arg_min_list_in)
  then have "c \<in> set (filter (is_open this)
                   (scan_cells cx cy [0 .. max (gridWidth this) (gridHeight this) - 1]))"
    by (rule in_set_takeD)
  then show ?thesis by simp
qed

subsection \<open>Invariants of placement\<close>

lemma same_grid_refl: "same_grid this this"
  by (simp add: same_grid_def)

lemma same_grid_trans: "same_grid a b \<Longrightarrow> same_grid b c \<Longrightarrow> same_grid a c"
  by (auto simp: same_grid_def)

lemma same_grid_claim: "same_grid this (claim this c)"
  by (auto simp: same_grid_def claim_def)

lemma takenCells_claim: "takenCells (claim this c) = insert (packed this c) (takenCells this)"
  by (simp add: claim_def packed_def)

lemma same_grid_valid:
  "same_grid this this' \<Longrightarrow> isValidCell this' a b = isValidCell this a b"
  by (simp add: same_grid_def isValidCell_def)

lemma same_grid_packed:
  "same_grid this this' \<Longrightarrow> packed this' c = packed this c"
  by (simp add: same_grid_def packed_def packCoordinate_def)

lemma placed_ok_claim:
  assumes ok: "placed_ok this ts" and op: "is_open this c"
  shows "placed_ok (claim this c) (ts @ [c])"
proof -
  have v: "isValidCell this (fst c) (snd c)" and nt: "packed this c \<notin> takenCells this"
    using op by (simp_all add: is_open_def packed_def)
  have "c \<notin> set ts"
  proof
    assume "c \<in> set ts"
    with ok have "packed this c \<in> takenCells this"
      by (auto simp: placed_ok_def list_all_iff)
    with nt show False by simp
  qed
  moreover have "isValidCell (claim this c) = isValidCell this"
    by (intro ext) (simp add: same_grid_valid [OF same_grid_claim])
  moreover have "packed (claim this c) = packed this"
    by (intro ext) (simp add: same_grid_packed [OF same_grid_claim])
  ultimately show ?thesis
    using ok v by (auto simp: placed_ok_def list_all_iff takenCells_claim)
qed

lemma growTiles_inv:
  "growTiles this city ts n = (this', ts') \<Longrightarrow> placed_ok this (prev @ ts) \<Longrightarrow>
     placed_ok this' (prev @ ts') \<and> same_grid this this'"
proof (induction n arbitrary: this ts)
  case 0
  then show ?case by (simp add: same_grid_refl)
next
  case (Suc n)
  show ?case
  proof (cases "findBestNextCell this (centerX city) (centerY city) ts")
    case None
    with Suc.prems show ?thesis by (simp add: same_grid_refl)
  next
    case (Some c)
    then have op: "is_open this c" by (rule findBestNextCell_open)
    from Some Suc.prems(1)
    have g: "growTiles (claim this c) city (ts @ [c]) n = (this', ts')" by simp
    have "placed_ok (claim this c) ((prev @ ts) @ [c])"
      using Suc.prems(2) op by (rule placed_ok_claim)
    then have "placed_ok (claim this c) (prev @ ts @ [c])" by simp
    from Suc.IH [OF g this] same_grid_claim [of this c]
    show ?thesis by (blast intro: same_grid_trans)
  qed
qed

lemma cityFootprint_inv:
  assumes "cityFootprint this city = (this', ts')" and "placed_ok this prev"
  shows "placed_ok this' (prev @ ts') \<and> same_grid this this'"
proof (cases "findNearestOpenCell this (centerX city) (centerY city)")
  case None
  with assms show ?thesis by (simp add: cityFootprint_def same_grid_refl)
next
  case (Some c)
  then have op: "is_open this c" by (rule findNearestOpenCell_open)
  from Some assms(1)
  have g: "growTiles (claim this c) city [c] (nat (numTiles city - 1)) = (this', ts')"
    by (simp add: cityFootprint_def)
  have "placed_ok (claim this c) (prev @ [c])"
    using assms(2) op by (rule placed_ok_claim)
  from growTiles_inv [OF g this] same_grid_claim [of this c]
  show ?thesis by (blast intro: same_grid_trans)
qed

lemma placed_ok_same_grid_cityTiles:
  "placed_ok this ts \<Longrightarrow> placed_ok (this\<lparr>cityTiles := x\<rparr>) ts"
  by (simp add: placed_ok_def isValidCell_def packed_def packCoordinate_def)

lemma placeCity_inv:
  assumes "placed_ok this (all_tiles this)"
  shows "placed_ok (placeCity this k city) (all_tiles (placeCity this k city))"
proof -
  obtain this' ts' where f: "cityFootprint this city = (this', ts')"
    by (cases "cityFootprint this city")
  from cityFootprint_inv [OF f assms]
  have ok: "placed_ok this' (all_tiles this @ ts')" and sg: "same_grid this this'" by simp_all
  have ct: "cityTiles this' = cityTiles this" using sg by (simp add: same_grid_def)
  have "all_tiles (placeCity this k city) = all_tiles this @ ts'"
    by (simp add: placeCity_def f all_tiles_def ct)
  moreover have "placed_ok (placeCity this k city) = placed_ok this'"
    by (intro ext) (simp add: placeCity_def f placed_ok_def isValidCell_def packed_def packCoordinate_def)
  ultimately show ?thesis using ok by simp
qed

lemma placeTiles_from_inv:
  "placed_ok this (all_tiles this) \<Longrightarrow>
   placed_ok (placeTiles_from this k cs) (all_tiles (placeTiles_from this k cs))"
  by (induction cs arbitrary: this k) (simp_all add: placeCity_inv)

lemma growTiles_same_grid:
  "growTiles this city ts n = (this', ts') \<Longrightarrow> same_grid this this'"
proof (induction n arbitrary: this ts)
  case 0
  then show ?case by (simp add: same_grid_refl)
next
  case (Suc n)
  show ?case
  proof (cases "findBestNextCell this (centerX city) (centerY city) ts")
    case None
    with Suc.prems show ?thesis by (simp add: same_grid_refl)
  next
    case (Some c)
    with Suc.prems
    have g: "growTiles (claim this c) city (ts @ [c]) n = (this', ts')" by simp
    from Suc.IH [OF g] same_grid_claim [of this c]
    show ?thesis by (blast intro: same_grid_trans)
  qed
qed

lemma cityFootprint_same_grid:
  assumes "cityFootprint this city = (this', ts')"
  shows "same_grid this this'"
proof (cases "findNearestOpenCell this (centerX city) (centerY city)")
  case None
  with assms show ?thesis by (simp add: cityFootprint_def same_grid_refl)
next
  case (Some c)
  with assms
  have g: "growTiles (claim this c) city [c] (nat (numTiles city - 1)) = (this', ts')"
    by (simp add: cityFootprint_def)
  from growTiles_same_grid [OF g] same_grid_claim [of this c]
  show ?thesis by (blast intro: same_grid_trans)
qed

lemma placeCity_grid:
  "gridWidth (placeCity this k city) = gridWidth this
   \<and> gridHeight (placeCity this k city) = gridHeight this
   \<and> takenCells this \<subseteq> takenCells (placeCity this k city)"
proof -
  obtain this' ts' where f: "cityFootprint this city = (this', ts')"
    by (cases "cityFootprint this city")
  from cityFootprint_same_grid [OF f] show ?thesis
    by (simp add: placeCity_def f same_grid_def)
qed

lemma placeTiles_from_grid:
  "gridWidth (placeTiles_from this k cs) = gridWidth this
   \<and> gridHeight (placeTiles_from this k cs) = gridHeight this
   \<and> takenCells this \<subseteq> takenCells (placeTiles_from this k cs)"
proof (induction cs arbitrary: this k)
  case Nil
  then show ?case by simp
next
  case (Cons city cs)
  from Cons.IH [of "placeCity this k city" "Suc k"] placeCity_grid [of this k city]
  show ?case by auto
qed

lemma constructor_ok: "placed_ok (constructor cs w h) (all_tiles (constructor cs w h))"
  by (simp add: placed_ok_def all_tiles_def constructor_def)

lemma generate_ok:
  "placed_ok (placeTiles (constructor cs w h)) (concat (map tiles (generate (constructor cs w h))))"
  using placeTiles_from_inv [OF constructor_ok]
  by (simp add: generate_def placeTiles_def all_tiles_def)

subsection \<open>The rings cover the grid: completeness of the searches\<close>

lemma mem_ring_offsets:
  "(dx, dy) \<in> set (ring_offsets r) \<longleftrightarrow>
     - r \<le> dx \<and> dx \<le> r \<and> - r \<le> dy \<and> dy \<le> r \<and> (\<bar>dx\<bar> = r \<or> \<bar>dy\<bar> = r)"
proof -
  have "(dx, dy) \<in> set (ring_offsets r) \<longleftrightarrow>
      (\<exists>x \<in> set [- r .. r]. (dx, dy) \<in> Pair x ` set (filter (\<lambda>dy. \<bar>x\<bar> = r \<or> \<bar>dy\<bar> = r) [- r .. r]))"
    by (simp only: ring_offsets_def set_concat set_map UN_iff image_image)
  also have "\<dots> \<longleftrightarrow> dx \<in> set [- r .. r] \<and> dy \<in> set (filter (\<lambda>dy. \<bar>dx\<bar> = r \<or> \<bar>dy\<bar> = r) [- r .. r])"
    by (simp only: image_iff Pair_inject) blast
  also have "\<dots> \<longleftrightarrow> - r \<le> dx \<and> dx \<le> r \<and> - r \<le> dy \<and> dy \<le> r \<and> (\<bar>dx\<bar> = r \<or> \<bar>dy\<bar> = r)"
    by (simp only: set_upto set_filter atLeastAtMost_iff mem_Collect_eq) blast
  finally show ?thesis .
qed

lemma ring_cells_iff:
  "(a, b) \<in> set (ring_cells tx ty r) \<longleftrightarrow>
     \<bar>a - tx\<bar> \<le> r \<and> \<bar>b - ty\<bar> \<le> r \<and> (\<bar>a - tx\<bar> = r \<or> \<bar>b - ty\<bar> = r)"
proof
  assume "(a, b) \<in> set (ring_cells tx ty r)"
  then obtain dx dy where "(dx, dy) \<in> set (ring_offsets r)" "a = tx + dx" "b = ty + dy"
    by (auto simp: ring_cells_def)
  then show "\<bar>a - tx\<bar> \<le> r \<and> \<bar>b - ty\<bar> \<le> r \<and> (\<bar>a - tx\<bar> = r \<or> \<bar>b - ty\<bar> = r)"
    unfolding mem_ring_offsets by auto
next
  assume "\<bar>a - tx\<bar> \<le> r \<and> \<bar>b - ty\<bar> \<le> r \<and> (\<bar>a - tx\<bar> = r \<or> \<bar>b - ty\<bar> = r)"
  then have "(a - tx, b - ty) \<in> set (ring_offsets r)"
    unfolding mem_ring_offsets by auto
  then have "(\<lambda>(dx, dy). (tx + dx, ty + dy)) (a - tx, b - ty) \<in> set (ring_cells tx ty r)"
    unfolding ring_cells_def set_map by (rule imageI)
  then show "(a, b) \<in> set (ring_cells tx ty r)" by simp
qed

lemma scan_cells_iff:
  "c \<in> set (scan_cells tx ty radii) \<longleftrightarrow> (\<exists>r \<in> set radii. c \<in> set (ring_cells tx ty r))"
  by (auto simp: scan_cells_def)

lemma scan_cells_cover:
  assumes t: "isValidCell this tx ty" and c: "isValidCell this a b"
    and lo: "lo \<le> max \<bar>a - tx\<bar> \<bar>b - ty\<bar>"
  shows "(a, b) \<in> set (scan_cells tx ty [lo .. max (gridWidth this) (gridHeight this) - 1])"
proof -
  let ?r = "max \<bar>a - tx\<bar> \<bar>b - ty\<bar>"
  have "\<bar>a - tx\<bar> \<le> gridWidth this - 1" "\<bar>b - ty\<bar> \<le> gridHeight this - 1"
    using t c by (auto simp: isValidCell_def)
  then have "?r \<le> max (gridWidth this) (gridHeight this) - 1" by auto
  with lo have "?r \<in> set [lo .. max (gridWidth this) (gridHeight this) - 1]" by simp
  moreover have "(a, b) \<in> set (ring_cells tx ty ?r)"
    unfolding ring_cells_iff by auto
  ultimately show ?thesis unfolding scan_cells_iff by blast
qed

lemma findNearestOpenCell_complete:
  assumes t: "isValidCell this tx ty" and c: "is_open this c"
  shows "findNearestOpenCell this tx ty \<noteq> None"
proof (cases "is_open this (tx, ty)")
  case True
  then show ?thesis by (simp add: findNearestOpenCell_find)
next
  case False
  obtain a b where ab: "c = (a, b)" by (cases c)
  from c ab have v: "isValidCell this a b" by (simp add: is_open_def)
  from False c ab have "(a, b) \<noteq> (tx, ty)" by auto
  then have "1 \<le> max \<bar>a - tx\<bar> \<bar>b - ty\<bar>" by auto
  with t v have "(a, b) \<in> set (scan_cells tx ty [1 .. max (gridWidth this) (gridHeight this) - 1])"
    by (rule scan_cells_cover)
  with c ab have "List.find (is_open this)
      (scan_cells tx ty [1 .. max (gridWidth this) (gridHeight this) - 1]) \<noteq> None"
    unfolding find_None_iff by blast
  with False show ?thesis unfolding findNearestOpenCell_find by simp
qed


subsection \<open>The footprint of one city, and the record of the \<open>i\<close>-th city\<close>

lemma growTiles_length:
  "growTiles this city ts n = (this', ts') \<Longrightarrow>
     length ts \<le> length ts' \<and> length ts' \<le> length ts + n
     \<and> (length ts' < length ts + n \<longrightarrow>
          findBestNextCell this' (centerX city) (centerY city) ts' = None)"
proof (induction n arbitrary: this ts)
  case 0
  then show ?case by simp
next
  case (Suc n)
  show ?case
  proof (cases "findBestNextCell this (centerX city) (centerY city) ts")
    case None
    with Suc.prems show ?thesis by auto
  next
    case (Some c)
    with Suc.prems
    have g: "growTiles (claim this c) city (ts @ [c]) n = (this', ts')" by simp
    from Suc.IH [OF g] show ?thesis by simp
  qed
qed

lemma cityFootprint_length:
  assumes f: "cityFootprint this city = (this', ts')"
  shows "int (length ts') \<le> max 1 (numTiles city)"
    and "int (length ts') < numTiles city \<Longrightarrow>
           (findNearestOpenCell this (centerX city) (centerY city) = None \<and> this' = this)
           \<or> findBestNextCell this' (centerX city) (centerY city) ts' = None"
    and "findNearestOpenCell this (centerX city) (centerY city) \<noteq> None \<Longrightarrow> 1 \<le> length ts'"
proof -
  show "int (length ts') \<le> max 1 (numTiles city)"
  proof (cases "findNearestOpenCell this (centerX city) (centerY city)")
    case None
    with f show ?thesis by (simp add: cityFootprint_def)
  next
    case (Some c)
    with f have g: "growTiles (claim this c) city [c] (nat (numTiles city - 1)) = (this', ts')"
      by (simp add: cityFootprint_def)
    from growTiles_length [OF g] show ?thesis by auto
  qed
  show "(findNearestOpenCell this (centerX city) (centerY city) = None \<and> this' = this)
           \<or> findBestNextCell this' (centerX city) (centerY city) ts' = None"
    if lt: "int (length ts') < numTiles city"
  proof (cases "findNearestOpenCell this (centerX city) (centerY city)")
    case None
    with f show ?thesis by (simp add: cityFootprint_def)
  next
    case (Some c)
    with f have g: "growTiles (claim this c) city [c] (nat (numTiles city - 1)) = (this', ts')"
      by (simp add: cityFootprint_def)
    from lt have "length ts' < length [c] + nat (numTiles city - 1)" by simp
    with growTiles_length [OF g]
    have "findBestNextCell this' (centerX city) (centerY city) ts' = None" by simp
    then show ?thesis ..
  qed
  show "1 \<le> length ts'" if "findNearestOpenCell this (centerX city) (centerY city) \<noteq> None"
  proof -
    from that obtain c where Some: "findNearestOpenCell this (centerX city) (centerY city) = Some c"
      by auto
    with f have g: "growTiles (claim this c) city [c] (nat (numTiles city - 1)) = (this', ts')"
      by (simp add: cityFootprint_def)
    from growTiles_length [OF g] show ?thesis by simp
  qed
qed


lemma placeTiles_from_append:
  "placeTiles_from this k (xs @ ys) =
     placeTiles_from (placeTiles_from this k xs) (k + length xs) ys"
  by (induction xs arbitrary: this k) simp_all

lemma cityTiles_placeCity:
  "cityTiles (placeCity this k city) =
     cityTiles this @ [\<lparr>index = k, cityName = name city,
        tiles = snd (cityFootprint this city), color = getColor k\<rparr>]"
proof -
  obtain this' ts' where f: "cityFootprint this city = (this', ts')"
    by (cases "cityFootprint this city")
  from cityFootprint_same_grid [OF f] show ?thesis
    by (simp add: placeCity_def f same_grid_def)
qed

lemma cityTiles_placeTiles_from_prefix:
  "\<exists>rest. cityTiles (placeTiles_from this k cs) = cityTiles this @ rest \<and> length rest = length cs"
proof (induction cs arbitrary: this k)
  case Nil
  then show ?case by simp
next
  case (Cons city cs)
  from Cons.IH [of "placeCity this k city" "Suc k"]
  obtain rest where "cityTiles (placeTiles_from (placeCity this k city) (Suc k) cs) =
      cityTiles (placeCity this k city) @ rest" and "length rest = length cs"
    by blast
  then show ?case by (simp add: cityTiles_placeCity)
qed

lemma placeTiles_from_nth:
  assumes e: "cityTiles this = []" and i: "i < length cs"
  shows "cityTiles (placeTiles_from this 0 cs) ! i =
     \<lparr>index = i, cityName = name (cs ! i),
      tiles = snd (cityFootprint (placeTiles_from this 0 (take i cs)) (cs ! i)),
      color = getColor i\<rparr>"
proof -
  let ?s1 = "placeTiles_from this 0 (take i cs)"
  let ?s2 = "placeCity ?s1 i (cs ! i)"
  let ?rec = "\<lparr>index = i, cityName = name (cs ! i),
      tiles = snd (cityFootprint ?s1 (cs ! i)), color = getColor i\<rparr>"
  have cs: "cs = take i cs @ (cs ! i) # drop (Suc i) cs"
    using i by (simp add: id_take_nth_drop)
  have li: "length (take i cs) = i" using i by simp
  have "placeTiles_from this 0 cs = placeTiles_from this 0 (take i cs @ (cs ! i) # drop (Suc i) cs)"
    using cs by simp
  also have "\<dots> = placeTiles_from ?s2 (Suc i) (drop (Suc i) cs)"
    unfolding placeTiles_from_append li by simp
  finally have fin: "placeTiles_from this 0 cs = placeTiles_from ?s2 (Suc i) (drop (Suc i) cs)" .
  from cityTiles_placeTiles_from_prefix [of this 0 "take i cs"] e li
  have l1: "length (cityTiles ?s1) = i" by auto
  have c2: "cityTiles ?s2 = cityTiles ?s1 @ [?rec]" by (rule cityTiles_placeCity)
  from cityTiles_placeTiles_from_prefix [of ?s2 "Suc i" "drop (Suc i) cs"]
  obtain rest where "cityTiles (placeTiles_from ?s2 (Suc i) (drop (Suc i) cs)) = cityTiles ?s2 @ rest"
    by blast
  then have "cityTiles (placeTiles_from this 0 cs) = cityTiles ?s1 @ ?rec # rest"
    unfolding fin c2 by simp
  then show ?thesis using l1 by (simp add: nth_append)
qed

lemma length_generate: "length (generate (constructor cs w h)) = length cs"
  using cityTiles_placeTiles_from_prefix [of "constructor cs w h" 0 "sort_key numTiles cs"]
  by (auto simp: generate_def placeTiles_def constructor_def)

lemma generate_nth:
  assumes "i < length cs"
  shows "generate (constructor cs w h) ! i =
     \<lparr>index = i, cityName = name (sort_key numTiles cs ! i),
      tiles = snd (cityFootprint
                (placeTiles_from (constructor cs w h) 0 (take i (sort_key numTiles cs)))
                (sort_key numTiles cs ! i)),
      color = getColor i\<rparr>"
proof -
  have "cityTiles (constructor cs w h) = []" by (simp add: constructor_def)
  moreover have "i < length (sort_key numTiles cs)" using assms by simp
  ultimately show ?thesis
    using placeTiles_from_nth [of "constructor cs w h" i "sort_key numTiles cs"]
    by (simp add: generate_def placeTiles_def constructor_def)
qed







subsection \<open>Uniqueness and validity of the generated tiles\<close>

text \<open>The equations that evaluate the generator on a concrete input.\<close>

lemmas gen_eval = generate_def constructor_def placeTiles_def placeCity_def cityFootprint_def
  findNearestOpenCell_def findBestNextCell_def collectAdjacent_def adjacent_tile_def adjacent_step_def
  set_add_def isValidCell_def packCoordinate_def unpackCoordinate_def js_rem_def claim_def
  distanceToCenter_def pickBest_def MAX_FALLBACK_CANDIDATES_def getColor_def COLOR_PALETTE_def
  upto_rec1 Let_def

lemma distinct_concat_nth:
  "distinct (concat xss) \<Longrightarrow> i < j \<Longrightarrow> j < length xss \<Longrightarrow> set (xss ! i) \<inter> set (xss ! j) = {}"
proof (induction xss arbitrary: i j)
  case Nil
  then show ?case by simp
next
  case (Cons xs xss)
  show ?case
  proof (cases i)
    case 0
    with Cons.prems obtain j' where j: "j = Suc j'" "j' < length xss"
      by (cases j) auto
    then have "set (xss ! j') \<subseteq> \<Union> (set ` set xss)" by (auto intro: nth_mem)
    with Cons.prems(1) 0 j show ?thesis by auto
  next
    case (Suc i')
    with Cons.prems obtain j' where j: "j = Suc j'" "j' < length xss" "i' < j'"
      by (cases j) auto
    with Cons.IH [of i' j'] Cons.prems(1) Suc show ?thesis by simp
  qed
qed

lemma distinct_concat_each: "distinct (concat xss) \<Longrightarrow> xs \<in> set xss \<Longrightarrow> distinct xs"
  by (induction xss) auto

lemma generate_distinct:
  "distinct (concat (map tiles (generate (constructor cs w h))))"
  using generate_ok [of cs w h] by (simp add: placed_ok_def)

text \<open>
  Claim C1. For every list of cities and all grid dimensions, no coordinate occurs twice
  in the generated output: the concatenation of all tile lists has no duplicate, so the
  tile lists of two different records are disjoint and no tile list repeats a coordinate.
\<close>

theorem generate_tiles_unique:
  "distinct (concat (map tiles (generate (constructor converted w h))))
   \<and> (\<forall>i j. i < j \<and> j < length (generate (constructor converted w h)) \<longrightarrow>
         set (tiles (generate (constructor converted w h) ! i))
           \<inter> set (tiles (generate (constructor converted w h) ! j)) = {})
   \<and> (\<forall>ct \<in> set (generate (constructor converted w h)). distinct (tiles ct))"
proof (intro conjI allI impI ballI)
  let ?out = "generate (constructor converted w h)"
  show d: "distinct (concat (map tiles ?out))" by (rule generate_distinct)
  {
    fix i j assume ij: "i < j \<and> j < length ?out"
    then have "set (map tiles ?out ! i) \<inter> set (map tiles ?out ! j) = {}"
      using distinct_concat_nth [OF d, of i j] by simp
    with ij show "set (tiles (?out ! i)) \<inter> set (tiles (?out ! j)) = {}" by simp
  }
  {
    fix ct assume "ct \<in> set ?out"
    then have "tiles ct \<in> set (map tiles ?out)" by simp
    with d show "distinct (tiles ct)" by (rule distinct_concat_each)
  }
qed

theorem generate_tiles_unique_witness:
  "(0::nat) < 1 \<and> 1 < length (generate (constructor two_cities 2 1))
   \<and> tiles (generate (constructor two_cities 2 1) ! 0) = [(0, 0)]
   \<and> tiles (generate (constructor two_cities 2 1) ! 1) = [(1, 0)]
   \<and> set (tiles (generate (constructor two_cities 2 1) ! 0))
        \<inter> set (tiles (generate (constructor two_cities 2 1) ! 1)) = {}"
proof -
  have e: "generate (constructor two_cities 2 1) =
      [\<lparr>index = 0, cityName = ''b'', tiles = [(0, 0)], color = ''#ff6b6b''\<rparr>,
       \<lparr>index = 1, cityName = ''a'', tiles = [(1, 0)], color = ''#4ecdc4''\<rparr>]"
    by (simp add: two_cities_def gen_eval)
  have "(0::nat) < 1 \<and> 1 < length (generate (constructor two_cities 2 1))"
    by (simp add: e)
  with generate_tiles_unique [of two_cities 2 1]
  have "set (tiles (generate (constructor two_cities 2 1) ! 0))
        \<inter> set (tiles (generate (constructor two_cities 2 1) ! 1)) = {}"
    by blast
  then show ?thesis by (simp add: e)
qed

lemma generate_valid:
  "list_all (\<lambda>c. 0 \<le> fst c \<and> fst c < w \<and> 0 \<le> snd c \<and> snd c < h)
     (concat (map tiles (generate (constructor cs w h))))"
proof -
  have "gridWidth (placeTiles (constructor cs w h)) = w"
    and "gridHeight (placeTiles (constructor cs w h)) = h"
    using placeTiles_from_grid [of "constructor cs w h" 0 "cities (constructor cs w h)"]
    by (simp_all add: placeTiles_def constructor_def)
  then show ?thesis
    using generate_ok [of cs w h]
    by (simp add: placed_ok_def isValidCell_def list_all_iff)
qed

text \<open>
  Claim C8. Every coordinate of every generated tile list is grid-valid:
  \<open>0 \<le> x < gridWidth\<close> and \<open>0 \<le> y < gridHeight\<close>.
\<close>

theorem generate_tiles_valid:
  "\<forall>ct \<in> set (generate (constructor converted w h)). \<forall>c \<in> set (tiles ct).
      0 \<le> fst c \<and> fst c < w \<and> 0 \<le> snd c \<and> snd c < h"
  using generate_valid [of w h converted] by (auto simp: list_all_iff)

theorem generate_tiles_valid_witness:
  "generate (constructor two_cities 2 1) ! 1 \<in> set (generate (constructor two_cities 2 1))
   \<and> (1, 0) \<in> set (tiles (generate (constructor two_cities 2 1) ! 1))
   \<and> (0::int) \<le> 1 \<and> (1::int) < 2 \<and> (0::int) \<le> 0 \<and> (0::int) < 1"
proof -
  have e: "generate (constructor two_cities 2 1) =
      [\<lparr>index = 0, cityName = ''b'', tiles = [(0, 0)], color = ''#ff6b6b''\<rparr>,
       \<lparr>index = 1, cityName = ''a'', tiles = [(1, 0)], color = ''#4ecdc4''\<rparr>]"
    by (simp add: two_cities_def gen_eval)
  have m: "generate (constructor two_cities 2 1) ! 1 \<in> set (generate (constructor two_cities 2 1))"
    and t: "(1, 0) \<in> set (tiles (generate (constructor two_cities 2 1) ! 1))"
    by (simp_all add: e)
  from generate_tiles_valid [of two_cities 2 1] m t
  have "0 \<le> fst (1::int, 0::int) \<and> fst (1::int, 0::int) < 2
      \<and> 0 \<le> snd (1::int, 0::int) \<and> snd (1::int, 0::int) < 1"
    by blast
  with m t show ?thesis by simp
qed

subsection \<open>The quota bound\<close>





subsection \<open>The order of placement\<close>

text \<open>
  Claim C3. The constructor leaves the cities sorted by ascending \<open>numTiles\<close>, a permutation
  of the input in which cities of equal \<open>numTiles\<close> keep their input order; \<open>placeTiles\<close>
  runs through that list from its first city; and the \<open>i\<close>-th record of the output has
  index \<open>i\<close>, the name of the \<open>i\<close>-th city of that list, and the tiles placed for it in the
  state that the cities before it have left.
\<close>

theorem generate_order:
  "sorted (map numTiles (cities (constructor converted w h)))
   \<and> mset (cities (constructor converted w h)) = mset converted
   \<and> (\<forall>k. filter (\<lambda>c. numTiles c = k) (cities (constructor converted w h))
           = filter (\<lambda>c. numTiles c = k) converted)
   \<and> placeTiles (constructor converted w h)
       = placeTiles_from (constructor converted w h) 0 (cities (constructor converted w h))
   \<and> length (generate (constructor converted w h)) = length converted
   \<and> (\<forall>i < length converted.
         index (generate (constructor converted w h) ! i) = i
         \<and> cityName (generate (constructor converted w h) ! i)
             = name (cities (constructor converted w h) ! i)
         \<and> tiles (generate (constructor converted w h) ! i)
             = snd (cityFootprint
                      (placeTiles_from (constructor converted w h) 0
                         (take i (cities (constructor converted w h))))
                      (cities (constructor converted w h) ! i)))"
proof -
  have c: "cities (constructor converted w h) = sort_key numTiles converted"
    by (simp add: constructor_def)
  have 1: "sorted (map numTiles (sort_key numTiles converted))" by (rule sorted_sort_key)
  have 2: "mset (sort_key numTiles converted) = mset converted" by simp
  have 3: "\<forall>k. filter (\<lambda>c. numTiles c = k) (sort_key numTiles converted)
           = filter (\<lambda>c. numTiles c = k) converted"
    by (simp add: sort_key_stable)
  have 4: "placeTiles (constructor converted w h)
       = placeTiles_from (constructor converted w h) 0 (sort_key numTiles converted)"
    by (simp add: placeTiles_def c)
  have 5: "length (generate (constructor converted w h)) = length converted"
    by (rule length_generate)
  have 6: "\<forall>i < length converted.
         index (generate (constructor converted w h) ! i) = i
         \<and> cityName (generate (constructor converted w h) ! i)
             = name (sort_key numTiles converted ! i)
         \<and> tiles (generate (constructor converted w h) ! i)
             = snd (cityFootprint
                      (placeTiles_from (constructor converted w h) 0
                         (take i (sort_key numTiles converted)))
                      (sort_key numTiles converted ! i))"
    by (simp add: generate_nth)
  from 1 2 3 4 5 6 show ?thesis unfolding c by (intro conjI)
qed

theorem generate_order_witness:
  "(0::nat) < length crowded_cities
   \<and> map numTiles crowded_cities = [3, 1]
   \<and> map numTiles (cities (constructor crowded_cities 2 1)) = [1, 3]
   \<and> index (generate (constructor crowded_cities 2 1) ! 0) = 0
   \<and> cityName (generate (constructor crowded_cities 2 1) ! 0) = ''a''
   \<and> tiles (generate (constructor crowded_cities 2 1) ! 0) = [(0, 0)]"
proof -
  have l: "(0::nat) < length crowded_cities" by (simp add: crowded_cities_def)
  have s: "cities (constructor crowded_cities 2 1) =
      [\<lparr>name = ''a'', population = 1, centerX = 0, centerY = 0, numTiles = 1\<rparr>,
       \<lparr>name = ''b'', population = 3, centerX = 1, centerY = 0, numTiles = 3\<rparr>]"
    by (simp add: crowded_cities_def constructor_def)
  have f: "snd (cityFootprint (constructor crowded_cities 2 1)
      \<lparr>name = ''a'', population = 1, centerX = 0, centerY = 0, numTiles = 1\<rparr>) = [(0, 0)]"
    by (simp add: constructor_def cityFootprint_def findNearestOpenCell_def isValidCell_def
          packCoordinate_def claim_def)
  from generate_order [of crowded_cities 2 1] l
  have "index (generate (constructor crowded_cities 2 1) ! 0) = 0
   \<and> cityName (generate (constructor crowded_cities 2 1) ! 0)
       = name (cities (constructor crowded_cities 2 1) ! 0)
   \<and> tiles (generate (constructor crowded_cities 2 1) ! 0)
             = snd (cityFootprint
                      (placeTiles_from (constructor crowded_cities 2 1) 0
                         (take 0 (cities (constructor crowded_cities 2 1))))
                      (cities (constructor crowded_cities 2 1) ! 0))"
    by blast
  then show ?thesis using l by (simp add: s f) (simp add: crowded_cities_def)
qed

subsection \<open>Start-cell selection\<close>

lemma scan_cells_append: "scan_cells tx ty (xs @ ys) = scan_cells tx ty xs @ scan_cells tx ty ys"
  by (simp add: scan_cells_def)






text \<open>
  Claim C10. With a grid-valid target and some unclaimed grid cell \<open>(a, b)\<close>, start-cell
  selection returns a cell: \<open>(a, b)\<close> lies within Chebyshev distance
  \<open>max gridWidth gridHeight - 1\<close> of the target, and a city centred on the target gets a
  non-empty tile list. Conversely, \<open>null\<close> is returned only for a target outside the grid or
  on a grid whose cells are all claimed.
\<close>

theorem start_cell_found:
  "(isValidCell this tx ty \<and> isValidCell this a b \<and> packCoordinate this a b \<notin> takenCells this
      \<longrightarrow> (\<exists>c. findNearestOpenCell this tx ty = Some c)
          \<and> max \<bar>a - tx\<bar> \<bar>b - ty\<bar> \<le> max (gridWidth this) (gridHeight this) - 1
          \<and> (tx = centerX city \<and> ty = centerY city \<longrightarrow> snd (cityFootprint this city) \<noteq> []))
   \<and> (findNearestOpenCell this tx ty = None
      \<longrightarrow> \<not> isValidCell this tx ty
          \<or> (\<forall>a b. isValidCell this a b \<longrightarrow> packCoordinate this a b \<in> takenCells this))"
proof (intro conjI impI)
  assume h: "isValidCell this tx ty \<and> isValidCell this a b
      \<and> packCoordinate this a b \<notin> takenCells this"
  then have op: "is_open this (a, b)" by (simp add: is_open_def)
  from h have t: "isValidCell this tx ty" by simp
  from findNearestOpenCell_complete [OF t op]
  show s: "\<exists>c. findNearestOpenCell this tx ty = Some c" by auto
  show "max \<bar>a - tx\<bar> \<bar>b - ty\<bar> \<le> max (gridWidth this) (gridHeight this) - 1"
    using h by (auto simp: isValidCell_def)
  show "snd (cityFootprint this city) \<noteq> []" if c: "tx = centerX city \<and> ty = centerY city"
  proof -
    obtain this' ts' where f: "cityFootprint this city = (this', ts')"
      by (cases "cityFootprint this city")
    from s c have "findNearestOpenCell this (centerX city) (centerY city) \<noteq> None" by auto
    from cityFootprint_length(3) [OF f this] show ?thesis by (auto simp: f)
  qed
next
  assume n: "findNearestOpenCell this tx ty = None"
  show "\<not> isValidCell this tx ty
          \<or> (\<forall>a b. isValidCell this a b \<longrightarrow> packCoordinate this a b \<in> takenCells this)"
  proof (cases "isValidCell this tx ty")
    case False
    then show ?thesis ..
  next
    case True
    have "packCoordinate this a b \<in> takenCells this" if "isValidCell this a b" for a b
    proof (rule ccontr)
      assume "packCoordinate this a b \<notin> takenCells this"
      with that have "is_open this (a, b)" by (simp add: is_open_def)
      from findNearestOpenCell_complete [OF True this] n show False by simp
    qed
    then show ?thesis by blast
  qed
qed

theorem start_cell_found_witness:
  "isValidCell half_taken 0 0 \<and> isValidCell half_taken 1 0
   \<and> packCoordinate half_taken 1 0 \<notin> takenCells half_taken
   \<and> findNearestOpenCell half_taken 0 0 = Some (1, 0)
   \<and> max \<bar>1 - 0\<bar> \<bar>0 - 0\<bar> \<le> max (gridWidth half_taken) (gridHeight half_taken) - 1
   \<and> findNearestOpenCell full_cell 0 0 = None
   \<and> packCoordinate full_cell 0 0 \<in> takenCells full_cell"
proof -
  have v: "isValidCell half_taken 0 0 \<and> isValidCell half_taken 1 0
      \<and> packCoordinate half_taken 1 0 \<notin> takenCells half_taken"
    by (simp add: half_taken_def isValidCell_def packCoordinate_def)
  have n: "findNearestOpenCell half_taken 0 0 = Some (1, 0)"
    by (simp add: half_taken_def findNearestOpenCell_def isValidCell_def packCoordinate_def upto_rec1)
  have z: "findNearestOpenCell full_cell 0 0 = None"
    by (simp add: full_cell_def findNearestOpenCell_def isValidCell_def packCoordinate_def)
  have vf: "isValidCell full_cell 0 0" by (simp add: full_cell_def isValidCell_def)
  from start_cell_found [of half_taken 0 0 1 0] v
  have 1: "max \<bar>1 - 0\<bar> \<bar>0 - 0\<bar> \<le> max (gridWidth half_taken) (gridHeight half_taken) - 1"
    by blast
  from start_cell_found [of full_cell 0 0] z vf
  have 2: "packCoordinate full_cell 0 0 \<in> takenCells full_cell" by blast
  from v n z 1 2 show ?thesis by simp
qed

subsection \<open>The growth step\<close>

lemma unit_offset: "(p = - 1 \<or> p = 0 \<or> p = 1) \<longleftrightarrow> \<bar>p\<bar> \<le> (1::int)"
  by arith

lemma cheb_one:
  fixes p q :: int
  shows "\<bar>p\<bar> \<le> 1 \<and> \<bar>q\<bar> \<le> 1 \<and> \<not> (p = 0 \<and> q = 0) \<longleftrightarrow> max \<bar>p\<bar> \<bar>q\<bar> = (1::int)"
  by arith

lemma eight_offsets:
  fixes p q :: int
  shows "(p = - 1 \<and> q = - 1) \<or> (p = - 1 \<and> q = 0) \<or> (p = - 1 \<and> q = 1)
      \<or> (p = 0 \<and> q = - 1) \<or> (p = 0 \<and> q = 1)
      \<or> (p = 1 \<and> q = - 1) \<or> (p = 1 \<and> q = 0) \<or> (p = 1 \<and> q = 1)
   \<longleftrightarrow> (p = - 1 \<or> p = 0 \<or> p = 1) \<and> (q = - 1 \<or> q = 0 \<or> q = 1) \<and> \<not> (p = 0 \<and> q = (0::int))"
  by auto

lemma eight_offsets_cheb:
  fixes p q :: int
  shows "(p = - 1 \<and> q = - 1) \<or> (p = - 1 \<and> q = 0) \<or> (p = - 1 \<and> q = 1)
      \<or> (p = 0 \<and> q = - 1) \<or> (p = 0 \<and> q = 1)
      \<or> (p = 1 \<and> q = - 1) \<or> (p = 1 \<and> q = 0) \<or> (p = 1 \<and> q = 1)
   \<longleftrightarrow> max \<bar>p\<bar> \<bar>q\<bar> = (1::int)"
  unfolding eight_offsets unit_offset cheb_one ..

lemma offset_eq: "a = u + k \<longleftrightarrow> a - u = (k::int)"
  by auto

lemma neighbours8_iff:
  "c \<in> set (neighbours8 t) \<longleftrightarrow> max \<bar>fst c - fst t\<bar> \<bar>snd c - snd t\<bar> = 1"
proof -
  obtain a b where c: "c = (a, b)" by (cases c)
  obtain u v where t: "t = (u, v)" by (cases t)
  have "(a, b) \<in> set (neighbours8 (u, v)) \<longleftrightarrow>
      (a = u + - 1 \<and> b = v + - 1) \<or> (a = u + - 1 \<and> b = v + 0) \<or> (a = u + - 1 \<and> b = v + 1)
      \<or> (a = u + 0 \<and> b = v + - 1) \<or> (a = u + 0 \<and> b = v + 1)
      \<or> (a = u + 1 \<and> b = v + - 1) \<or> (a = u + 1 \<and> b = v + 0) \<or> (a = u + 1 \<and> b = v + 1)"
    unfolding neighbours8_def
    by (simp only: list.map set_simps insert_iff empty_iff prod.case fst_conv snd_conv
          prod.inject simp_thms)
  also have "\<dots> \<longleftrightarrow> max \<bar>a - u\<bar> \<bar>b - v\<bar> = 1"
    unfolding offset_eq by (rule eight_offsets_cheb)
  finally show ?thesis by (simp only: c t fst_conv snd_conv)
qed

lemma frontier_iff:
  "c \<in> set (frontier this ts) \<longleftrightarrow>
     is_open this c \<and> (\<exists>t \<in> set ts. max \<bar>fst c - fst t\<bar> \<bar>snd c - snd t\<bar> = 1)"
proof -
  have "c \<in> set (frontier this ts) \<longleftrightarrow> is_open this c \<and> (\<exists>t \<in> set ts. c \<in> set (neighbours8 t))"
    unfolding frontier_def by auto
  then show ?thesis unfolding neighbours8_iff .
qed


text \<open>
  Claim C5. When the adjacency frontier of the tiles of a city is not empty (so the city
  has a tile), \<open>findBestNextCell\<close> returns a frontier cell whose Euclidean distance to the
  centre of the city is least among all frontier cells, and the growth loop claims that
  cell. The frontier consists of the grid-valid, unclaimed cells at Chebyshev distance 1
  from some tile of the city.
\<close>

theorem growth_step_nearest_frontier:
  "frontier this ts \<noteq> [] \<Longrightarrow>
     (\<exists>c. findBestNextCell this (centerX city) (centerY city) ts = Some c
          \<and> c \<in> set (frontier this ts)
          \<and> (\<forall>c' \<in> set (frontier this ts).
                distanceToCenter (centerX city) (centerY city) c
                  \<le> distanceToCenter (centerX city) (centerY city) c')
          \<and> growTiles this city ts (Suc n) = growTiles (claim this c) city (ts @ [c]) n)
     \<and> ts \<noteq> []
     \<and> (\<forall>c. c \<in> set (frontier this ts) \<longleftrightarrow>
            isValidCell this (fst c) (snd c)
            \<and> packCoordinate this (fst c) (snd c) \<notin> takenCells this
            \<and> (\<exists>t \<in> set ts. max \<bar>fst c - fst t\<bar> \<bar>snd c - snd t\<bar> = 1))"
proof (intro conjI allI)
  assume ne: "frontier this ts \<noteq> []"
  from findBestNextCell_frontier [OF ne, of "centerX city" "centerY city"]
  obtain c where c: "findBestNextCell this (centerX city) (centerY city) ts = Some c"
    and m: "c \<in> set (frontier this ts)"
    and l: "\<forall>c' \<in> set (frontier this ts).
                distanceToCenter (centerX city) (centerY city) c
                  \<le> distanceToCenter (centerX city) (centerY city) c'"
    by blast
  from c have "growTiles this city ts (Suc n) = growTiles (claim this c) city (ts @ [c]) n"
    by simp
  with c m l
  show "\<exists>c. findBestNextCell this (centerX city) (centerY city) ts = Some c
          \<and> c \<in> set (frontier this ts)
          \<and> (\<forall>c' \<in> set (frontier this ts).
                distanceToCenter (centerX city) (centerY city) c
                  \<le> distanceToCenter (centerX city) (centerY city) c')
          \<and> growTiles this city ts (Suc n) = growTiles (claim this c) city (ts @ [c]) n"
    by blast
  from ne show "ts \<noteq> []" by (auto simp: frontier_def)
  fix c
  show "c \<in> set (frontier this ts) \<longleftrightarrow>
            isValidCell this (fst c) (snd c)
            \<and> packCoordinate this (fst c) (snd c) \<notin> takenCells this
            \<and> (\<exists>t \<in> set ts. max \<bar>fst c - fst t\<bar> \<bar>snd c - snd t\<bar> = 1)"
    unfolding frontier_iff is_open_def by (simp only: conj_assoc)
qed

theorem growth_step_nearest_frontier_witness:
  "frontier corner_taken [(1, 1)] = [(0, 0), (0, 1), (1, 0)]
   \<and> findBestNextCell corner_taken 1 1 [(1, 1)] = Some (0, 1)
   \<and> distanceToCenter 1 1 (0, 1) \<le> distanceToCenter 1 1 (0, 0)
   \<and> distanceToCenter 1 1 (0, 1) \<le> distanceToCenter 1 1 (1, 0)"
proof -
  let ?city = "\<lparr>name = ''a'', population = 1, centerX = 1, centerY = 1, numTiles = 2\<rparr>"
  have f: "frontier corner_taken [(1, 1)] = [(0, 0), (0, 1), (1, 0)]"
    by (simp add: frontier_def neighbours8_def is_open_def isValidCell_def packCoordinate_def
          corner_taken_def)
  have b: "findBestNextCell corner_taken 1 1 [(1, 1)] = Some (0, 1)"
    by (simp add: corner_taken_def findBestNextCell_def collectAdjacent_def adjacent_tile_def
          adjacent_step_def set_add_def isValidCell_def packCoordinate_def unpackCoordinate_def
          js_rem_def distanceToCenter_def pickBest_def upto_rec1)
  have "frontier corner_taken [(1, 1)] \<noteq> []" by (simp add: f)
  from growth_step_nearest_frontier [OF this, of ?city 0]
  have "\<exists>c. findBestNextCell corner_taken 1 1 [(1, 1)] = Some c
      \<and> (\<forall>c' \<in> set (frontier corner_taken [(1, 1)]).
            distanceToCenter 1 1 c \<le> distanceToCenter 1 1 c')"
    by auto
  then have "\<forall>c' \<in> set [(0, 0), (0, 1), (1, 0)].
      distanceToCenter 1 1 (0, 1) \<le> distanceToCenter 1 1 c'"
    unfolding f b by auto
  with f b show ?thesis by simp
qed




subsection \<open>The fill loop of the render grid\<close>

lemma wf_grid_setCell: "wf_grid w h g \<Longrightarrow> wf_grid w h (setCell g i j v)"
proof (cases "j < length g")
  case False
  then have "setCell g i j v = g" by (simp add: setCell_def list_update_beyond)
  then show "wf_grid w h g \<Longrightarrow> ?thesis" by simp
next
  case True
  assume wf: "wf_grid w h g"
  then have "length (g ! j) = w" using True by (auto simp: wf_grid_def list_all_iff)
  then have "\<forall>row \<in> insert ((g ! j)[i := v]) (set g). length row = w"
    using wf by (auto simp: wf_grid_def list_all_iff)
  then have "\<forall>row \<in> set (g[j := (g ! j)[i := v]]). length row = w"
    using set_update_subset_insert [of g j "(g ! j)[i := v]"] by blast
  then show ?thesis using wf by (simp add: wf_grid_def setCell_def list_all_iff)
qed

lemma wf_grid_row: "wf_grid w h g \<Longrightarrow> j < h \<Longrightarrow> length (g ! j) = w"
  by (auto simp: wf_grid_def list_all_iff)

lemma cell_setCell:
  "wf_grid w h g \<Longrightarrow> i' < w \<Longrightarrow> j' < h \<Longrightarrow>
   cell (setCell g i' j' v) i j = (if i = i' \<and> j = j' then v else cell g i j)"
  by (auto simp: cell_def setCell_def wf_grid_row wf_grid_def nth_list_update)

lemma wf_grid_init: "wf_grid w h (initRenderGrid w h)"
  by (simp add: wf_grid_def initRenderGrid_def list_all_iff)

lemma cell_init: "i < w \<Longrightarrow> j < h \<Longrightarrow> cell (initRenderGrid w h) i j = None"
  by (simp add: cell_def initRenderGrid_def)

lemma fillTile_valid:
  assumes wf: "wf_grid (gw * 2 + 1) (gh * 2 + 1) g" and v: "valid_tile gw gh c"
  shows "fillTile k g c = Some (setCell g (nat (fst c) * 2 + 1) (nat (snd c) * 2 + 1) (Some k))"
proof -
  from v have x: "0 \<le> fst c" "nat (fst c) < gw" and y: "0 \<le> snd c" "nat (snd c) < gh"
    by (auto simp: valid_tile_def)
  have ry: "nat (snd c * 2 + 1) = nat (snd c) * 2 + 1" using y by (simp add: nat_add_distrib nat_mult_distrib)
  have rx: "nat (fst c * 2 + 1) = nat (fst c) * 2 + 1" using x by (simp add: nat_add_distrib nat_mult_distrib)
  have ly: "snd c * 2 + 1 < int (length g)" using wf y by (auto simp: wf_grid_def)
  have "length (g ! (nat (snd c) * 2 + 1)) = gw * 2 + 1"
    using wf y by (intro wf_grid_row [OF wf]) simp
  then have lx: "fst c * 2 + 1 < int (length (g ! (nat (snd c) * 2 + 1)))"
    using x by auto
  show ?thesis
    using x y ly lx by (simp add: fillTile_def Let_def rx ry setCell_def)
qed

lemma fillTiles_valid:
  assumes "wf_grid (gw * 2 + 1) (gh * 2 + 1) g" and "list_all (valid_tile gw gh) ts"
  shows "\<exists>g'. fillTiles k g ts = Some g' \<and> wf_grid (gw * 2 + 1) (gh * 2 + 1) g'
     \<and> (\<forall>i < gw * 2 + 1. \<forall>j < gh * 2 + 1.
           cell g' i j = (if odd i \<and> odd j \<and> (int (i div 2), int (j div 2)) \<in> set ts
                          then Some k else cell g i j))"
  using assms
proof (induction ts arbitrary: g)
  case Nil
  then show ?case by simp
next
  case (Cons c ts)
  let ?g1 = "setCell g (nat (fst c) * 2 + 1) (nat (snd c) * 2 + 1) (Some k)"
  from Cons.prems have v: "valid_tile gw gh c" and vs: "list_all (valid_tile gw gh) ts" by simp_all
  have f: "fillTile k g c = Some ?g1" using Cons.prems(1) v by (rule fillTile_valid)
  have wf1: "wf_grid (gw * 2 + 1) (gh * 2 + 1) ?g1" using Cons.prems(1) by (rule wf_grid_setCell)
  from Cons.IH [OF wf1 vs] obtain g' where g': "fillTiles k ?g1 ts = Some g'"
    and wf': "wf_grid (gw * 2 + 1) (gh * 2 + 1) g'"
    and c': "\<forall>i < gw * 2 + 1. \<forall>j < gh * 2 + 1.
           cell g' i j = (if odd i \<and> odd j \<and> (int (i div 2), int (j div 2)) \<in> set ts
                          then Some k else cell ?g1 i j)"
    by blast
  from v have x: "0 \<le> fst c" "nat (fst c) < gw" and y: "0 \<le> snd c" "nat (snd c) < gh"
    by (auto simp: valid_tile_def)
  have c1: "cell ?g1 i j = (if i = nat (fst c) * 2 + 1 \<and> j = nat (snd c) * 2 + 1 then Some k else cell g i j)"
    for i j
    using x y by (intro cell_setCell [OF Cons.prems(1)]) simp_all
  have pos: "(i = nat (fst c) * 2 + 1 \<and> j = nat (snd c) * 2 + 1)
      \<longleftrightarrow> (odd i \<and> odd j \<and> (int (i div 2), int (j div 2)) = c)" for i j
  proof
    assume "i = nat (fst c) * 2 + 1 \<and> j = nat (snd c) * 2 + 1"
    then show "odd i \<and> odd j \<and> (int (i div 2), int (j div 2)) = c"
      using x y by (cases c) auto
  next
    assume a: "odd i \<and> odd j \<and> (int (i div 2), int (j div 2)) = c"
    then have "fst c = int (i div 2)" "snd c = int (j div 2)" by auto
    then have "nat (fst c) = i div 2" "nat (snd c) = j div 2" by simp_all
    with a show "i = nat (fst c) * 2 + 1 \<and> j = nat (snd c) * 2 + 1"
      by (auto elim!: oddE)
  qed
  have "\<forall>i < gw * 2 + 1. \<forall>j < gh * 2 + 1.
           cell g' i j = (if odd i \<and> odd j \<and> (int (i div 2), int (j div 2)) \<in> set (c # ts)
                          then Some k else cell g i j)"
    using c' c1 pos by auto
  with g' wf' f show ?case by simp
qed

lemma fillCities_valid:
  assumes "wf_grid (gw * 2 + 1) (gh * 2 + 1) g"
    and "list_all (\<lambda>ct. list_all (valid_tile gw gh) (tiles ct)) cts"
  shows "\<exists>g'. fillCities g cts = Some g' \<and> wf_grid (gw * 2 + 1) (gh * 2 + 1) g'
     \<and> (\<forall>i < gw * 2 + 1. \<forall>j < gh * 2 + 1.
           cell g' i j = (case tileAt cts i j of Some k \<Rightarrow> Some k | None \<Rightarrow> cell g i j))"
  using assms
proof (induction cts arbitrary: g)
  case Nil
  then show ?case by (simp add: tileAt_def)
next
  case (Cons ct cts)
  from Cons.prems have v: "list_all (valid_tile gw gh) (tiles ct)"
    and vs: "list_all (\<lambda>ct. list_all (valid_tile gw gh) (tiles ct)) cts" by simp_all
  from fillTiles_valid [OF Cons.prems(1) v, of "index ct"]
  obtain g1 where g1: "fillTiles (index ct) g (tiles ct) = Some g1"
    and wf1: "wf_grid (gw * 2 + 1) (gh * 2 + 1) g1"
    and c1: "\<forall>i < gw * 2 + 1. \<forall>j < gh * 2 + 1.
           cell g1 i j = (if odd i \<and> odd j \<and> (int (i div 2), int (j div 2)) \<in> set (tiles ct)
                          then Some (index ct) else cell g i j)"
    by blast
  from Cons.IH [OF wf1 vs] obtain g' where g': "fillCities g1 cts = Some g'"
    and wf': "wf_grid (gw * 2 + 1) (gh * 2 + 1) g'"
    and c': "\<forall>i < gw * 2 + 1. \<forall>j < gh * 2 + 1.
           cell g' i j = (case tileAt cts i j of Some k \<Rightarrow> Some k | None \<Rightarrow> cell g1 i j)"
    by blast
  have "\<forall>i < gw * 2 + 1. \<forall>j < gh * 2 + 1.
           cell g' i j = (case tileAt (ct # cts) i j of Some k \<Rightarrow> Some k | None \<Rightarrow> cell g i j)"
    using c' c1 by (auto simp: tileAt_def split: option.splits)
  with g1 g' wf' show ?case by simp
qed

subsection \<open>The border loop of the render grid\<close>

lemma borderStep_cells:
  "borderStep g x y =
     (let upLeft = cell g (x - 1) (y - 1);
          downLeft = cell g (x - 1) (y + 1);
          upRight = cell g (x + 1) (y - 1);
          downRight = cell g (x + 1) (y + 1)
      in if upLeft = None then g
         else
           (let g1 = (if upLeft = upRight then setCell g x (y - 1) upLeft else g);
                g2 = (if upLeft = downLeft then setCell g1 (x - 1) y upLeft else g1)
            in if upLeft = upRight \<and> upLeft = downLeft \<and> upLeft = downRight
               then setCell g2 x y upLeft
               else g2))"
  by (simp add: borderStep_def cell_def setCell_def Let_def)

lemma wf_grid_if:
  "wf_grid w h a \<Longrightarrow> wf_grid w h (if c then setCell a i j v else a)"
  by (simp add: wf_grid_setCell)

lemma cell_if_setCell:
  "wf_grid w h a \<Longrightarrow> i' < w \<Longrightarrow> j' < h \<Longrightarrow>
   cell (if c then setCell a i' j' v else a) i j = (if c \<and> i = i' \<and> j = j' then v else cell a i j)"
  by (simp add: cell_setCell)

lemma borderStep_effect:
  assumes wf: "wf_grid w h g" and x: "1 \<le> x" "x + 1 < w" and y: "1 \<le> y" "y + 1 < h"
  shows "wf_grid w h (borderStep g x y)"
    and "cell (borderStep g x y) i j =
      (if cell g (x - 1) (y - 1) = None then cell g i j
       else if (cell g (x - 1) (y - 1) = cell g (x + 1) (y - 1)
               \<and> cell g (x - 1) (y - 1) = cell g (x - 1) (y + 1)
               \<and> cell g (x - 1) (y - 1) = cell g (x + 1) (y + 1)) \<and> i = x \<and> j = y
            then cell g (x - 1) (y - 1)
       else if cell g (x - 1) (y - 1) = cell g (x - 1) (y + 1) \<and> i = x - 1 \<and> j = y
            then cell g (x - 1) (y - 1)
       else if cell g (x - 1) (y - 1) = cell g (x + 1) (y - 1) \<and> i = x \<and> j = y - 1
            then cell g (x - 1) (y - 1)
       else cell g i j)"
proof -
  let ?ul = "cell g (x - 1) (y - 1)"
  let ?g1 = "if ?ul = cell g (x + 1) (y - 1) then setCell g x (y - 1) ?ul else g"
  let ?g2 = "if ?ul = cell g (x - 1) (y + 1) then setCell ?g1 (x - 1) y ?ul else ?g1"
  let ?g3 = "if ?ul = cell g (x + 1) (y - 1) \<and> ?ul = cell g (x - 1) (y + 1)
               \<and> ?ul = cell g (x + 1) (y + 1)
             then setCell ?g2 x y ?ul else ?g2"
  have b: "borderStep g x y = (if ?ul = None then g else ?g3)"
    unfolding borderStep_cells Let_def ..
  have wf1: "wf_grid w h ?g1" using wf by (rule wf_grid_if)
  have wf2: "wf_grid w h ?g2" using wf1 by (rule wf_grid_if)
  have wf3: "wf_grid w h ?g3" using wf2 by (rule wf_grid_if)
  show "wf_grid w h (borderStep g x y)"
    unfolding b using wf wf3 by (rule if_split [THEN iffD2, OF conjI [OF impI impI]])
  have xs: "x < w" "x - 1 < w" and ys: "y < h" "y - 1 < h" using x y by simp_all
  have c1: "cell ?g1 i j =
      (if ?ul = cell g (x + 1) (y - 1) \<and> i = x \<and> j = y - 1 then ?ul else cell g i j)"
    using wf xs(1) ys(2) by (rule cell_if_setCell)
  have c2: "cell ?g2 i j =
      (if ?ul = cell g (x - 1) (y + 1) \<and> i = x - 1 \<and> j = y then ?ul else cell ?g1 i j)"
    using wf1 xs(2) ys(1) by (rule cell_if_setCell)
  have c3: "cell ?g3 i j =
      (if (?ul = cell g (x + 1) (y - 1) \<and> ?ul = cell g (x - 1) (y + 1)
               \<and> ?ul = cell g (x + 1) (y + 1)) \<and> i = x \<and> j = y then ?ul else cell ?g2 i j)"
    using wf2 xs(1) ys(1) by (rule cell_if_setCell)
  show "cell (borderStep g x y) i j =
      (if ?ul = None then cell g i j
       else if (?ul = cell g (x + 1) (y - 1) \<and> ?ul = cell g (x - 1) (y + 1)
               \<and> ?ul = cell g (x + 1) (y + 1)) \<and> i = x \<and> j = y
            then ?ul
       else if ?ul = cell g (x - 1) (y + 1) \<and> i = x - 1 \<and> j = y
            then ?ul
       else if ?ul = cell g (x + 1) (y - 1) \<and> i = x \<and> j = y - 1
            then ?ul
       else cell g i j)"
  proof (cases "?ul = None")
    case True
    then show ?thesis unfolding b by (simp only: if_True simp_thms)
  next
    case False
    then have "cell (borderStep g x y) i j = cell ?g3 i j"
      unfolding b by (simp only: if_False)
    also have "\<dots> = (if (?ul = cell g (x + 1) (y - 1) \<and> ?ul = cell g (x - 1) (y + 1)
               \<and> ?ul = cell g (x + 1) (y + 1)) \<and> i = x \<and> j = y
            then ?ul
       else if ?ul = cell g (x - 1) (y + 1) \<and> i = x - 1 \<and> j = y
            then ?ul
       else if ?ul = cell g (x + 1) (y - 1) \<and> i = x \<and> j = y - 1
            then ?ul
       else cell g i j)"
      unfolding c3 c2 c1 ..
    finally show ?thesis using False by (simp only: if_False)
  qed
qed

lemma tiles_keptD:
  "tiles_kept w h T g \<Longrightarrow> i < w \<Longrightarrow> j < h \<Longrightarrow> odd i \<Longrightarrow> odd j \<Longrightarrow> cell g i j = T i j"
  by (simp add: tiles_kept_def list_all_iff)

lemma writer_target:
  assumes "even x" "even y" "2 \<le> x" "2 \<le> y" and n: "\<not> (odd i \<and> odd j)"
  shows "writer i j = (x, y) \<longleftrightarrow> (i = x \<and> j = y) \<or> (i = x - 1 \<and> j = y) \<or> (i = x \<and> j = y - 1)"
proof (cases "even i"; cases "even j")
  assume "even i" "even j"
  then show ?thesis using assms by (auto simp: writer_def)
next
  assume "even i" "odd j"
  then show ?thesis using assms by (auto simp: writer_def)
next
  assume "odd i" "even j"
  then show ?thesis using assms by (auto simp: writer_def)
next
  assume "odd i" "odd j"
  with n show ?thesis by simp
qed

lemma borderStep_cell:
  assumes tk: "tiles_kept w h T g" and p: "even_pos w h (x, y)"
    and ij: "i < w" "j < h"
  shows "cell (borderStep g x y) i j =
     (if \<not> (odd i \<and> odd j) \<and> writer i j = (x, y) \<and> borderCell T i j \<noteq> None
      then borderCell T i j else cell g i j)"
proof -
  from p have ev: "even x" "even y" and x: "2 \<le> x" "x + 2 < w" and y: "2 \<le> y" "y + 2 < h"
    by (simp_all add: even_pos_def)
  from tk have wf: "wf_grid w h g" by (simp add: tiles_kept_def)
  have od: "odd (x - 1)" "odd (x + 1)" "odd (y - 1)" "odd (y + 1)"
    using ev x y by auto
  have bx: "x - 1 < w" "x + 1 < w" and bh: "y - 1 < h" "y + 1 < h"
    using x y by linarith+
  have ul: "cell g (x - 1) (y - 1) = T (x - 1) (y - 1)"
    using tk bx(1) bh(1) od(1) od(3) by (rule tiles_keptD)
  have ur: "cell g (x + 1) (y - 1) = T (x + 1) (y - 1)"
    using tk bx(2) bh(1) od(2) od(3) by (rule tiles_keptD)
  have dl: "cell g (x - 1) (y + 1) = T (x - 1) (y + 1)"
    using tk bx(1) bh(2) od(1) od(4) by (rule tiles_keptD)
  have dr: "cell g (x + 1) (y + 1) = T (x + 1) (y + 1)"
    using tk bx(2) bh(2) od(2) od(4) by (rule tiles_keptD)
  have x1: "1 \<le> x" "x + 1 < w" and y1: "1 \<le> y" "y + 1 < h" using x y by simp_all
  define a where "a = T (x - 1) (y - 1)"
  define b where "b = T (x + 1) (y - 1)"
  define c where "c = T (x - 1) (y + 1)"
  define d where "d = T (x + 1) (y + 1)"
  define G where "G = cell g i j"
  define A where "A \<longleftrightarrow> a = None"
  define BB where "BB \<longleftrightarrow> a = b"
  define CC where "CC \<longleftrightarrow> a = c"
  define DD where "DD \<longleftrightarrow> a = d"
  note eff = borderStep_effect(2) [OF wf x1 y1, of i j, unfolded ul ur dl dr,
      folded a_def b_def c_def d_def G_def, folded A_def BB_def CC_def DD_def]
  have aN: "a \<noteq> None" if "\<not> A" using that by (simp add: A_def)
  have cornerT: "corner T x y = (if \<not> A \<and> BB \<and> CC \<and> DD then a else None)"
    unfolding corner_def A_def BB_def CC_def DD_def a_def b_def c_def d_def ..
  have leftT: "leftBorder T x y = (if \<not> A \<and> CC then a else None)"
    unfolding leftBorder_def A_def BB_def CC_def DD_def a_def b_def c_def d_def ..
  have upT: "upBorder T x y = (if \<not> A \<and> BB then a else None)"
    unfolding upBorder_def A_def BB_def CC_def DD_def a_def b_def c_def d_def ..
  have nx: "x - 1 \<noteq> x" and ny: "y - 1 \<noteq> y" using x y by simp_all
  consider (pc) "i = x \<and> j = y" | (pl) "i = x - 1 \<and> j = y" | (pu) "i = x \<and> j = y - 1"
    | (po) "\<not> (i = x \<and> j = y) \<and> \<not> (i = x - 1 \<and> j = y) \<and> \<not> (i = x \<and> j = y - 1)"
    by blast
  then have "cell (borderStep g x y) i j =
     (if \<not> (odd i \<and> odd j) \<and> writer i j = (x, y) \<and> borderCell T i j \<noteq> None
      then borderCell T i j else G)"
  proof cases
    case pc
    then have w: "writer i j = (x, y)" and e: "even i" "even j"
      using ev by (simp_all add: writer_def)
    have "borderCell T i j = corner T x y"
      using e pc by (simp add: borderCell_def)
    then have bc: "borderCell T i j = (if \<not> A \<and> BB \<and> CC \<and> DD then a else None)"
      unfolding cornerT .
    have L: "cell (borderStep g x y) i j = (if \<not> A \<and> BB \<and> CC \<and> DD then a else G)"
      unfolding eff using pc nx ny by auto
    have R: "(if \<not> (odd i \<and> odd j) \<and> writer i j = (x, y) \<and> borderCell T i j \<noteq> None
        then borderCell T i j else G) = (if \<not> A \<and> BB \<and> CC \<and> DD then a else G)"
      unfolding bc using e w aN by auto
    show ?thesis unfolding L R ..
  next
    case pl
    then have w: "writer i j = (x, y)" and e: "odd i" "even j"
      using ev od x by (simp_all add: writer_def)
    have "x - 1 + 1 = x" using x by simp
    then have "borderCell T i j = leftBorder T x y"
      using e pl by (simp add: borderCell_def)
    then have bc: "borderCell T i j = (if \<not> A \<and> CC then a else None)"
      unfolding leftT .
    have L: "cell (borderStep g x y) i j = (if \<not> A \<and> CC then a else G)"
      unfolding eff using pl nx ny by auto
    have R: "(if \<not> (odd i \<and> odd j) \<and> writer i j = (x, y) \<and> borderCell T i j \<noteq> None
        then borderCell T i j else G) = (if \<not> A \<and> CC then a else G)"
      unfolding bc using e w aN by auto
    show ?thesis unfolding L R ..
  next
    case pu
    then have w: "writer i j = (x, y)" and e: "even i" "odd j"
      using ev od y by (simp_all add: writer_def)
    have "y - 1 + 1 = y" using y by simp
    then have "borderCell T i j = upBorder T x y"
      using e pu by (simp add: borderCell_def)
    then have bc: "borderCell T i j = (if \<not> A \<and> BB then a else None)"
      unfolding upT .
    have L: "cell (borderStep g x y) i j = (if \<not> A \<and> BB then a else G)"
      unfolding eff using pu nx ny by auto
    have R: "(if \<not> (odd i \<and> odd j) \<and> writer i j = (x, y) \<and> borderCell T i j \<noteq> None
        then borderCell T i j else G) = (if \<not> A \<and> BB then a else G)"
      unfolding bc using e w aN by auto
    show ?thesis unfolding L R ..
  next
    case po
    then have n: "\<not> (\<not> (odd i \<and> odd j) \<and> writer i j = (x, y))"
      using writer_target [OF ev x(1) y(1), of i j] by blast
    have L: "cell (borderStep g x y) i j = G"
      unfolding eff using po by auto
    have R: "(if \<not> (odd i \<and> odd j) \<and> writer i j = (x, y) \<and> borderCell T i j \<noteq> None
        then borderCell T i j else G) = G"
      using n by auto
    show ?thesis unfolding L R ..
  qed
  then show ?thesis unfolding G_def .
qed

lemma tiles_keptI:
  assumes "wf_grid w h g"
    and "\<And>i j. i < w \<Longrightarrow> j < h \<Longrightarrow> odd i \<Longrightarrow> odd j \<Longrightarrow> cell g i j = T i j"
  shows "tiles_kept w h T g"
  using assms by (simp add: tiles_kept_def list_all_iff)

lemma tiles_kept_wf: "tiles_kept w h T g \<Longrightarrow> wf_grid w h g"
  by (simp add: tiles_kept_def)

lemma tiles_kept_borderStep:
  assumes tk: "tiles_kept w h T g" and p: "even_pos w h (x, y)"
  shows "tiles_kept w h T (borderStep g x y)"
proof (rule tiles_keptI)
  from p have x: "1 \<le> x" "x + 1 < w" and y: "1 \<le> y" "y + 1 < h"
    by (simp_all add: even_pos_def)
  show "wf_grid w h (borderStep g x y)"
    using tiles_kept_wf [OF tk] x y by (rule borderStep_effect(1))
  fix i j assume ij: "i < w" "j < h" and o: "odd i" "odd j"
  have "cell (borderStep g x y) i j = cell g i j"
    unfolding borderStep_cell [OF tk p ij] using o by simp
  also have "\<dots> = T i j" using tk ij o by (rule tiles_keptD)
  finally show "cell (borderStep g x y) i j = T i j" .
qed

lemma fold_borderStep:
  assumes "tiles_kept w h T g" and "list_all (even_pos w h) ps"
  shows "tiles_kept w h T (fold (\<lambda>p g. borderStep g (fst p) (snd p)) ps g)
    \<and> (\<forall>i < w. \<forall>j < h.
          cell (fold (\<lambda>p g. borderStep g (fst p) (snd p)) ps g) i j =
            (if \<not> (odd i \<and> odd j) \<and> writer i j \<in> set ps \<and> borderCell T i j \<noteq> None
             then borderCell T i j else cell g i j))"
  using assms
proof (induction ps arbitrary: g)
  case Nil
  then show ?case by simp
next
  case (Cons p ps)
  obtain x y where p: "p = (x, y)" by (cases p)
  let ?g1 = "borderStep g x y"
  from Cons.prems have ep: "even_pos w h (x, y)" and eps: "list_all (even_pos w h) ps"
    by (simp_all add: p)
  have tk1: "tiles_kept w h T ?g1" using Cons.prems(1) ep by (rule tiles_kept_borderStep)
  note ih = Cons.IH [OF tk1 eps]
  have f: "fold (\<lambda>p g. borderStep g (fst p) (snd p)) (p # ps) g
      = fold (\<lambda>p g. borderStep g (fst p) (snd p)) ps ?g1"
    by (simp add: p)
  have "cell (fold (\<lambda>p g. borderStep g (fst p) (snd p)) ps ?g1) i j =
            (if \<not> (odd i \<and> odd j) \<and> writer i j \<in> set (p # ps) \<and> borderCell T i j \<noteq> None
             then borderCell T i j else cell g i j)" if ij: "i < w" "j < h" for i j
  proof -
    from ih ij have "cell (fold (\<lambda>p g. borderStep g (fst p) (snd p)) ps ?g1) i j =
            (if \<not> (odd i \<and> odd j) \<and> writer i j \<in> set ps \<and> borderCell T i j \<noteq> None
             then borderCell T i j else cell ?g1 i j)" by blast
    then show ?thesis
      unfolding borderStep_cell [OF Cons.prems(1) ep ij] by (auto simp: p)
  qed
  with ih show ?case unfolding f by blast
qed

lemma fillBorders_flat:
  "fillBorders g w h =
     fold (\<lambda>p g. borderStep g (fst p) (snd p))
       (concat (map (\<lambda>y. map (\<lambda>x. (x, y)) (evenIndices w)) (evenIndices h))) g"
proof -
  have inner: "fold (\<lambda>x g. borderStep g x y) xs g =
      fold (\<lambda>p g. borderStep g (fst p) (snd p)) (map (\<lambda>x. (x, y)) xs) g" for y xs g
    by (simp add: fold_map comp_def)
  have "fold (\<lambda>y. fold (\<lambda>x g. borderStep g x y) xs) ys g =
      fold (\<lambda>p g. borderStep g (fst p) (snd p)) (concat (map (\<lambda>y. map (\<lambda>x. (x, y)) xs) ys)) g"
    for xs ys
    by (induction ys arbitrary: g) (simp_all add: inner)
  then show ?thesis by (simp add: fillBorders_def)
qed

lemma set_evenIndices: "x \<in> set (evenIndices n) \<longleftrightarrow> even x \<and> 2 \<le> x \<and> x + 2 < n"
  by (auto simp: evenIndices_def)

lemma even_positions:
  "p \<in> set (concat (map (\<lambda>y. map (\<lambda>x. (x, y)) (evenIndices w)) (evenIndices h)))
     \<longleftrightarrow> even_pos w h p"
proof -
  obtain x y where p: "p = (x, y)" by (cases p)
  have "(x, y) \<in> set (concat (map (\<lambda>y. map (\<lambda>x. (x, y)) (evenIndices w)) (evenIndices h)))
     \<longleftrightarrow> x \<in> set (evenIndices w) \<and> y \<in> set (evenIndices h)"
    by auto
  then show ?thesis unfolding p set_evenIndices even_pos_def by auto
qed

subsection \<open>The render grid is the specified grid\<close>

lemma renderCell_writer:
  "renderCell cts w h i j =
     (if odd i \<and> odd j then tileAt cts i j
      else if even_pos w h (writer i j) then borderCell (tileAt cts) i j else None)"
  by (cases "even i"; cases "even j") (simp_all add: renderCell_def writer_def borderCell_def)

lemma grid_eqI:
  assumes wf: "wf_grid w h g" and c: "\<And>i j. i < w \<Longrightarrow> j < h \<Longrightarrow> cell g i j = f i j"
  shows "g = map (\<lambda>j. map (\<lambda>i. f i j) [0 ..< w]) [0 ..< h]"
proof (rule nth_equalityI)
  show "length g = length (map (\<lambda>j. map (\<lambda>i. f i j) [0 ..< w]) [0 ..< h])"
    using wf by (simp add: wf_grid_def)
  fix j assume "j < length g"
  then have j: "j < h" using wf by (simp add: wf_grid_def)
  have lr: "length (g ! j) = w" using wf j by (rule wf_grid_row)
  have "g ! j = map (\<lambda>i. f i j) [0 ..< w]"
  proof (rule nth_equalityI)
    show "length (g ! j) = length (map (\<lambda>i. f i j) [0 ..< w])" using lr by simp
    fix i assume "i < length (g ! j)"
    then have i: "i < w" using lr by simp
    from c [OF i j] show "g ! j ! i = map (\<lambda>i. f i j) [0 ..< w] ! i"
      using i by (simp add: cell_def)
  qed
  then show "g ! j = map (\<lambda>j. map (\<lambda>i. f i j) [0 ..< w]) [0 ..< h] ! j"
    using j by simp
qed

lemma renderMap_spec:
  assumes v: "list_all (\<lambda>ct. list_all (valid_tile gw gh) (tiles ct)) cts"
  shows "renderMap cts gw gh = Some (renderSpec cts gw gh)"
proof -
  let ?w = "gw * 2 + 1" and ?h = "gh * 2 + 1"
  let ?T = "tileAt cts"
  let ?ps = "concat (map (\<lambda>y. map (\<lambda>x. (x, y)) (evenIndices ?w)) (evenIndices ?h))"
  from fillCities_valid [OF wf_grid_init v]
  obtain g0 where f: "fillCities (initRenderGrid ?w ?h) cts = Some g0"
    and wf0: "wf_grid ?w ?h g0"
    and c0: "\<forall>i < ?w. \<forall>j < ?h.
        cell g0 i j = (case ?T i j of Some k \<Rightarrow> Some k | None \<Rightarrow> cell (initRenderGrid ?w ?h) i j)"
    by blast
  have c0': "cell g0 i j = ?T i j" if "i < ?w" "j < ?h" for i j
    using c0 that by (simp add: cell_init split: option.splits)
  have tk: "tiles_kept ?w ?h ?T g0"
    using wf0 c0' by (intro tiles_keptI) simp_all
  have ps: "list_all (even_pos ?w ?h) ?ps"
    unfolding list_all_iff using even_positions by blast
  let ?g = "fold (\<lambda>p g. borderStep g (fst p) (snd p)) ?ps g0"
  from fold_borderStep [OF tk ps]
  have tkg: "tiles_kept ?w ?h ?T ?g"
    and cg: "\<forall>i < ?w. \<forall>j < ?h. cell ?g i j =
            (if \<not> (odd i \<and> odd j) \<and> writer i j \<in> set ?ps \<and> borderCell ?T i j \<noteq> None
             then borderCell ?T i j else cell g0 i j)"
    by blast+
  have cell_g: "cell ?g i j = renderCell cts ?w ?h i j" if ij: "i < ?w" "j < ?h" for i j
  proof (cases "odd i \<and> odd j")
    case True
    then show ?thesis using cg ij c0' [OF ij] by (simp add: renderCell_writer)
  next
    case False
    then have "?T i j = None" by (auto simp: tileAt_def)
    then have "cell g0 i j = None" using c0' [OF ij] by simp
    then show ?thesis
      using cg ij False unfolding renderCell_writer even_positions by auto
  qed
  have "?g = renderSpec cts gw gh"
    unfolding renderSpec_def
    using tiles_kept_wf [OF tkg] cell_g by (rule grid_eqI)
  then show ?thesis
    unfolding renderMap_def Let_def f option.case fillBorders_flat by (rule arg_cong)
qed

subsection \<open>The cells around the tiles\<close>

lemma tileAt_odd: "tileAt cts (Suc (x * 2)) (Suc (y * 2)) = owner cts (int x, int y)"
  by (simp add: tileAt_def)

lemma renderCell_tile:
  "renderCell cts w h (x * 2 + 1) (y * 2 + 1) = owner cts (int x, int y)"
  by (simp add: renderCell_def tileAt_odd)

lemma even_pos_double:
  "even_pos (gw * 2 + 1) (gh * 2 + 1) (a * 2, b * 2) \<longleftrightarrow> 1 \<le> a \<and> a < gw \<and> 1 \<le> b \<and> b < gh"
  by (auto simp: even_pos_def)

lemma renderCell_even_even:
  "renderCell cts w h (a * 2) (b * 2) =
     (if even_pos w h (a * 2, b * 2) then corner (tileAt cts) (a * 2) (b * 2) else None)"
  by (simp add: renderCell_def)

lemma renderCell_even_odd:
  "renderCell cts w h (a * 2) (b * 2 + 1) =
     (if even_pos w h (a * 2, Suc b * 2) then upBorder (tileAt cts) (a * 2) (Suc b * 2) else None)"
  by (simp add: renderCell_def)

lemma renderCell_odd_even:
  "renderCell cts w h (a * 2 + 1) (b * 2) =
     (if even_pos w h (Suc a * 2, b * 2) then leftBorder (tileAt cts) (Suc a * 2) (b * 2) else None)"
  by (simp add: renderCell_def)


lemma tileAt_around:
  "tileAt cts (Suc a * 2 - 1) (Suc b * 2 - 1) = owner cts (int a, int b)"
  "tileAt cts (Suc a * 2 + 1) (Suc b * 2 - 1) = owner cts (int (Suc a), int b)"
  "tileAt cts (Suc a * 2 - 1) (Suc b * 2 + 1) = owner cts (int a, int (Suc b))"
  "tileAt cts (Suc a * 2 + 1) (Suc b * 2 + 1) = owner cts (int (Suc a), int (Suc b))"
  by (simp_all add: tileAt_def)

lemma corner_owner:
  "corner (tileAt cts) (Suc a * 2) (Suc b * 2) =
     (if owner cts (int a, int b) \<noteq> None
         \<and> owner cts (int a, int b) = owner cts (int (Suc a), int b)
         \<and> owner cts (int a, int b) = owner cts (int a, int (Suc b))
         \<and> owner cts (int a, int b) = owner cts (int (Suc a), int (Suc b))
      then owner cts (int a, int b) else None)"
  unfolding corner_def tileAt_around ..

lemma upBorder_owner:
  "upBorder (tileAt cts) (Suc a * 2) (Suc b * 2) =
     (if owner cts (int a, int b) \<noteq> None
         \<and> owner cts (int a, int b) = owner cts (int (Suc a), int b)
      then owner cts (int a, int b) else None)"
  unfolding upBorder_def tileAt_around ..

lemma leftBorder_owner:
  "leftBorder (tileAt cts) (Suc a * 2) (Suc b * 2) =
     (if owner cts (int a, int b) \<noteq> None
         \<and> owner cts (int a, int b) = owner cts (int a, int (Suc b))
      then owner cts (int a, int b) else None)"
  unfolding leftBorder_def tileAt_around ..

lemma even_pos_Suc:
  "even_pos (gw * 2 + 1) (gh * 2 + 1) (Suc a * 2, Suc b * 2) \<longleftrightarrow> Suc a < gw \<and> Suc b < gh"
  unfolding even_pos_double by simp

lemma even_pos_zero:
  "\<not> even_pos w h (0 * 2, b)" "\<not> even_pos w h (a, 0 * 2)"
  by (simp_all add: even_pos_def)

text \<open>The cells around the tiles, in tile coordinates.\<close>

lemma cell_corner:
  "renderCell cts (gw * 2 + 1) (gh * 2 + 1) (Suc a * 2) (Suc b * 2) =
     (if Suc a < gw \<and> Suc b < gh then
        (if owner cts (int a, int b) \<noteq> None
            \<and> owner cts (int a, int b) = owner cts (int (Suc a), int b)
            \<and> owner cts (int a, int b) = owner cts (int a, int (Suc b))
            \<and> owner cts (int a, int b) = owner cts (int (Suc a), int (Suc b))
         then owner cts (int a, int b) else None)
      else None)"
  unfolding renderCell_even_even even_pos_Suc corner_owner ..

lemma cell_between_columns:
  "renderCell cts (gw * 2 + 1) (gh * 2 + 1) (Suc a * 2) (b * 2 + 1) =
     (if Suc a < gw \<and> Suc b < gh then
        (if owner cts (int a, int b) \<noteq> None
            \<and> owner cts (int a, int b) = owner cts (int (Suc a), int b)
         then owner cts (int a, int b) else None)
      else None)"
  unfolding renderCell_even_odd even_pos_Suc upBorder_owner ..

lemma cell_between_rows:
  "renderCell cts (gw * 2 + 1) (gh * 2 + 1) (a * 2 + 1) (Suc b * 2) =
     (if Suc a < gw \<and> Suc b < gh then
        (if owner cts (int a, int b) \<noteq> None
            \<and> owner cts (int a, int b) = owner cts (int a, int (Suc b))
         then owner cts (int a, int b) else None)
      else None)"
  unfolding renderCell_odd_even even_pos_Suc leftBorder_owner ..

lemma cell_edge:
  "renderCell cts w h (0 * 2) (b * 2) = None"
  "renderCell cts w h (a * 2) (0 * 2) = None"
  "renderCell cts w h (0 * 2) (b * 2 + 1) = None"
  "renderCell cts w h (a * 2 + 1) (0 * 2) = None"
  unfolding renderCell_even_even renderCell_even_odd renderCell_odd_even
  by (simp_all only: even_pos_zero if_False)

lemma block_cells:
  assumes o: "owner cts (int x, int y) = Some k" "owner cts (int (Suc x), int y) = Some k"
      "owner cts (int x, int (Suc y)) = Some k" "owner cts (int (Suc x), int (Suc y)) = Some k"
    and i: "Suc (Suc x) < gw" "Suc (Suc y) < gh"
  shows "renderCell cts (gw * 2 + 1) (gh * 2 + 1) (Suc x * 2) (Suc y * 2) = Some k"
    and "renderCell cts (gw * 2 + 1) (gh * 2 + 1) (Suc x * 2) (y * 2 + 1) = Some k"
    and "renderCell cts (gw * 2 + 1) (gh * 2 + 1) (Suc x * 2) (Suc y * 2 + 1) = Some k"
    and "renderCell cts (gw * 2 + 1) (gh * 2 + 1) (x * 2 + 1) (Suc y * 2) = Some k"
    and "renderCell cts (gw * 2 + 1) (gh * 2 + 1) (Suc x * 2 + 1) (Suc y * 2) = Some k"
proof -
  from i have i': "Suc x < gw" "Suc y < gh" by simp_all
  show "renderCell cts (gw * 2 + 1) (gh * 2 + 1) (Suc x * 2) (Suc y * 2) = Some k"
    unfolding cell_corner using o i' by simp
  show "renderCell cts (gw * 2 + 1) (gh * 2 + 1) (Suc x * 2) (y * 2 + 1) = Some k"
    unfolding cell_between_columns using o i' by simp
  show "renderCell cts (gw * 2 + 1) (gh * 2 + 1) (Suc x * 2) (Suc y * 2 + 1) = Some k"
    unfolding cell_between_columns using o i i' by simp
  show "renderCell cts (gw * 2 + 1) (gh * 2 + 1) (x * 2 + 1) (Suc y * 2) = Some k"
    unfolding cell_between_rows using o i' by simp
  show "renderCell cts (gw * 2 + 1) (gh * 2 + 1) (Suc x * 2 + 1) (Suc y * 2) = Some k"
    unfolding cell_between_rows using o i i' by simp
qed

lemma isolated_cells:
  assumes n: "list_all (\<lambda>c. owner cts c \<noteq> owner cts (int x, int y)) (neighbours8 (int x, int y))"
  shows "renderCell cts (gw * 2 + 1) (gh * 2 + 1) (x * 2) (y * 2) = None"
    and "renderCell cts (gw * 2 + 1) (gh * 2 + 1) (x * 2) (y * 2 + 1) = None"
    and "renderCell cts (gw * 2 + 1) (gh * 2 + 1) (x * 2) (Suc y * 2) = None"
    and "renderCell cts (gw * 2 + 1) (gh * 2 + 1) (x * 2 + 1) (y * 2) = None"
    and "renderCell cts (gw * 2 + 1) (gh * 2 + 1) (x * 2 + 1) (Suc y * 2) = None"
    and "renderCell cts (gw * 2 + 1) (gh * 2 + 1) (Suc x * 2) (y * 2) = None"
    and "renderCell cts (gw * 2 + 1) (gh * 2 + 1) (Suc x * 2) (y * 2 + 1) = None"
    and "renderCell cts (gw * 2 + 1) (gh * 2 + 1) (Suc x * 2) (Suc y * 2) = None"
proof -
  let ?O = "\<lambda>a b. owner cts (int a, int b)"
  from n have N: "owner cts (int x + 1, int y) \<noteq> ?O x y" "owner cts (int x, int y + 1) \<noteq> ?O x y"
    "owner cts (int x - 1, int y) \<noteq> ?O x y" "owner cts (int x, int y - 1) \<noteq> ?O x y"
    "owner cts (int x - 1, int y - 1) \<noteq> ?O x y"
    by (simp_all add: neighbours8_def)
  have e: "int (Suc x) = int x + 1" "int (Suc y) = int y + 1" by simp_all
  have r: "?O (Suc x) y \<noteq> ?O x y" and u: "?O x (Suc y) \<noteq> ?O x y"
    unfolding e using N by blast+
  have l: "?O x' y \<noteq> ?O x y" if "x = Suc x'" for x'
  proof -
    from that have "int x' = int x - 1" by simp
    then show ?thesis using N by simp
  qed
  have d: "?O x y' \<noteq> ?O x y" if "y = Suc y'" for y'
  proof -
    from that have "int y' = int y - 1" by simp
    then show ?thesis using N by simp
  qed
  have ld: "?O x' y' \<noteq> ?O x y" if "x = Suc x'" "y = Suc y'" for x' y'
  proof -
    from that have "int x' = int x - 1" "int y' = int y - 1" by simp_all
    then show ?thesis using N by simp
  qed
  show "renderCell cts (gw * 2 + 1) (gh * 2 + 1) (x * 2) (y * 2) = None"
  proof (cases x)
    case 0
    then show ?thesis using cell_edge(1) [of cts _ _ y] by simp
  next
    case sx: (Suc x')
    show ?thesis
    proof (cases y)
      case 0
      then show ?thesis using cell_edge(2) [of cts _ _ x] by simp
    next
      case sy: (Suc y')
      show ?thesis unfolding sx sy cell_corner
        using ld [OF sx sy] unfolding sx sy by auto
    qed
  qed
  show "renderCell cts (gw * 2 + 1) (gh * 2 + 1) (x * 2) (y * 2 + 1) = None"
  proof (cases x)
    case 0
    then show ?thesis using cell_edge(3) [of cts _ _ y] by simp
  next
    case sx: (Suc x')
    show ?thesis unfolding sx cell_between_columns
      using l [OF sx] unfolding sx by auto
  qed
  show "renderCell cts (gw * 2 + 1) (gh * 2 + 1) (x * 2) (Suc y * 2) = None"
  proof (cases x)
    case 0
    then show ?thesis using cell_edge(1) [of cts _ _ "Suc y"] by simp
  next
    case sx: (Suc x')
    show ?thesis unfolding sx cell_corner
      using l [OF sx] unfolding sx by auto
  qed
  show "renderCell cts (gw * 2 + 1) (gh * 2 + 1) (x * 2 + 1) (y * 2) = None"
  proof (cases y)
    case 0
    then show ?thesis using cell_edge(4) [of cts _ _ x] by simp
  next
    case sy: (Suc y')
    show ?thesis unfolding sy cell_between_rows
      using d [OF sy] unfolding sy by auto
  qed
  show "renderCell cts (gw * 2 + 1) (gh * 2 + 1) (x * 2 + 1) (Suc y * 2) = None"
    unfolding cell_between_rows using u by auto
  show "renderCell cts (gw * 2 + 1) (gh * 2 + 1) (Suc x * 2) (y * 2) = None"
  proof (cases y)
    case 0
    then show ?thesis using cell_edge(2) [of cts _ _ "Suc x"] by simp
  next
    case sy: (Suc y')
    show ?thesis unfolding sy cell_corner
      using d [OF sy] unfolding sy by auto
  qed
  show "renderCell cts (gw * 2 + 1) (gh * 2 + 1) (Suc x * 2) (y * 2 + 1) = None"
    unfolding cell_between_columns using r by auto
  show "renderCell cts (gw * 2 + 1) (gh * 2 + 1) (Suc x * 2) (Suc y * 2) = None"
    unfolding cell_corner using r by auto
qed

lemma renderSpec_cell:
  "rx < gw * 2 + 1 \<Longrightarrow> ry < gh * 2 + 1 \<Longrightarrow>
   cell (renderSpec cts gw gh) rx ry = renderCell cts (gw * 2 + 1) (gh * 2 + 1) rx ry"
proof -
  assume x: "rx < gw * 2 + 1" and y: "ry < gh * 2 + 1"
  have "renderSpec cts gw gh ! ry
      = map (\<lambda>rx. renderCell cts (gw * 2 + 1) (gh * 2 + 1) rx ry) [0 ..< gw * 2 + 1]"
    unfolding renderSpec_def using y by (simp only: nth_map length_upt diff_zero nth_upt add_0)
  then show ?thesis
    unfolding cell_def using x by (simp only: nth_map length_upt diff_zero nth_upt add_0)
qed

lemma owner_None: "owner cts c = None \<longleftrightarrow> (\<forall>ct \<in> set cts. c \<notin> set (tiles ct))"
  by (induction cts) (auto split: option.splits)

lemma owner_distinct:
  "distinct (concat (map tiles cts)) \<Longrightarrow> ct \<in> set cts \<Longrightarrow> c \<in> set (tiles ct) \<Longrightarrow>
   owner cts c = Some (index ct)"
proof (induction cts)
  case Nil
  then show ?case by simp
next
  case (Cons a cts)
  show ?case
  proof (cases "ct \<in> set cts")
    case True
    with Cons have "owner cts c = Some (index ct)" by simp
    then show ?thesis by simp
  next
    case False
    with Cons.prems have a: "ct = a" by simp
    have "owner cts c = None"
      unfolding owner_None using Cons.prems(1,3) a by auto
    then show ?thesis using Cons.prems(3) a by simp
  qed
qed

lemma even_pos_cells:
  assumes p: "even_pos w h (ex, ey)"
  shows "renderCell cts w h ex (ey - 1) = upBorder (tileAt cts) ex ey"
    and "renderCell cts w h (ex - 1) ey = leftBorder (tileAt cts) ex ey"
    and "renderCell cts w h ex ey = corner (tileAt cts) ex ey"
    and "renderCell cts w h (ex - 1) (ey - 1) = tileAt cts (ex - 1) (ey - 1)"
    and "renderCell cts w h (ex + 1) (ey - 1) = tileAt cts (ex + 1) (ey - 1)"
    and "renderCell cts w h (ex - 1) (ey + 1) = tileAt cts (ex - 1) (ey + 1)"
    and "renderCell cts w h (ex + 1) (ey + 1) = tileAt cts (ex + 1) (ey + 1)"
proof -
  from p have e: "even ex" "even ey" and g: "2 \<le> ex" "2 \<le> ey"
    by (simp_all add: even_pos_def)
  then have o: "odd (ex - 1)" "odd (ey - 1)" "odd (ex + 1)" "odd (ey + 1)"
    and s: "ex - 1 + 1 = ex" "ey - 1 + 1 = ey"
    by auto
  show "renderCell cts w h ex (ey - 1) = upBorder (tileAt cts) ex ey"
    using e o p by (simp add: renderCell_def s)
  show "renderCell cts w h (ex - 1) ey = leftBorder (tileAt cts) ex ey"
    using e o p by (simp add: renderCell_def s)
  show "renderCell cts w h ex ey = corner (tileAt cts) ex ey"
    using e o p by (simp add: renderCell_def)
  show "renderCell cts w h (ex - 1) (ey - 1) = tileAt cts (ex - 1) (ey - 1)"
    using o by (simp add: renderCell_def)
  show "renderCell cts w h (ex + 1) (ey - 1) = tileAt cts (ex + 1) (ey - 1)"
    using o by (simp add: renderCell_def)
  show "renderCell cts w h (ex - 1) (ey + 1) = tileAt cts (ex - 1) (ey + 1)"
    using o by (simp add: renderCell_def)
  show "renderCell cts w h (ex + 1) (ey + 1) = tileAt cts (ex + 1) (ey + 1)"
    using o by (simp add: renderCell_def)
qed

lemma assigned_cell_kind:
  assumes "renderCell cts w h rx ry \<noteq> None"
  shows "(odd rx \<and> odd ry)
     \<or> (\<exists>ex ey. even_pos w h (ex, ey)
            \<and> ((rx, ry) = (ex, ey - 1) \<or> (rx, ry) = (ex - 1, ey) \<or> (rx, ry) = (ex, ey)))"
proof (cases "even rx"; cases "even ry")
  assume "even rx" "even ry"
  with assms have "even_pos w h (rx, ry)"
    by (simp add: renderCell_def split: if_splits)
  then show ?thesis by blast
next
  assume "even rx" "odd ry"
  with assms have "even_pos w h (rx, ry + 1)"
    by (simp add: renderCell_def split: if_splits)
  moreover have "(rx, ry) = (rx, ry + 1 - 1)" by simp
  ultimately show ?thesis by blast
next
  assume "odd rx" "even ry"
  with assms have "even_pos w h (rx + 1, ry)"
    by (simp add: renderCell_def split: if_splits)
  moreover have "(rx, ry) = (rx + 1 - 1, ry)" by simp
  ultimately show ?thesis by blast
next
  assume "odd rx" "odd ry"
  then show ?thesis by simp
qed

subsection \<open>The render transform\<close>

text \<open>
  Claim C9. For a collection whose tiles lie in the grid, \<open>renderMap\<close> builds the grid
  \<open>renderSpec\<close> of \<open>2 * gridHeight + 1\<close> rows of \<open>2 * gridWidth + 1\<close> cells. In it the render
  position \<open>(2x + 1, 2y + 1)\<close> holds the index of the location that claims the tile
  \<open>(x, y)\<close> (of the one record listing it, when the tile lists are pairwise disjoint). For
  every interior even position \<open>(ex, ey)\<close> the cell \<open>(ex, ey - 1)\<close> holds up-left's index when
  up-left is assigned and equals up-right, the cell \<open>(ex - 1, ey)\<close> when up-left is assigned
  and equals down-left, the cell \<open>(ex, ey)\<close> when all four diagonal neighbours are assigned
  and equal, and they are unassigned otherwise. A cell that is neither a tile cell nor one
  of these is unassigned. The eight cells around a tile none of whose eight neighbours has
  its owner are unassigned; and a 2 by 2 block of one owner that does not touch the last
  column or row has its shared corner and the four borders between its tiles assigned.
\<close>

theorem render_grid:
  assumes v: "list_all (\<lambda>ct. list_all (valid_tile gw gh) (tiles ct)) cts"
  shows "renderMap cts gw gh = Some (renderSpec cts gw gh)
   \<and> length (renderSpec cts gw gh) = gh * 2 + 1
   \<and> list_all (\<lambda>row. length row = gw * 2 + 1) (renderSpec cts gw gh)
   \<and> (\<forall>x y. x < gw \<and> y < gh \<longrightarrow>
         cell (renderSpec cts gw gh) (x * 2 + 1) (y * 2 + 1) = owner cts (int x, int y))
   \<and> (distinct (concat (map tiles cts)) \<longrightarrow>
        (\<forall>ct \<in> set cts. \<forall>c \<in> set (tiles ct).
           cell (renderSpec cts gw gh) (nat (fst c) * 2 + 1) (nat (snd c) * 2 + 1)
             = Some (index ct)))
   \<and> (\<forall>ex ey. even_pos (gw * 2 + 1) (gh * 2 + 1) (ex, ey) \<longrightarrow>
         cell (renderSpec cts gw gh) ex (ey - 1) =
           (if cell (renderSpec cts gw gh) (ex - 1) (ey - 1) \<noteq> None
               \<and> cell (renderSpec cts gw gh) (ex - 1) (ey - 1)
                   = cell (renderSpec cts gw gh) (ex + 1) (ey - 1)
            then cell (renderSpec cts gw gh) (ex - 1) (ey - 1) else None)
         \<and> cell (renderSpec cts gw gh) (ex - 1) ey =
           (if cell (renderSpec cts gw gh) (ex - 1) (ey - 1) \<noteq> None
               \<and> cell (renderSpec cts gw gh) (ex - 1) (ey - 1)
                   = cell (renderSpec cts gw gh) (ex - 1) (ey + 1)
            then cell (renderSpec cts gw gh) (ex - 1) (ey - 1) else None)
         \<and> cell (renderSpec cts gw gh) ex ey =
           (if cell (renderSpec cts gw gh) (ex - 1) (ey - 1) \<noteq> None
               \<and> cell (renderSpec cts gw gh) (ex - 1) (ey - 1)
                   = cell (renderSpec cts gw gh) (ex + 1) (ey - 1)
               \<and> cell (renderSpec cts gw gh) (ex - 1) (ey - 1)
                   = cell (renderSpec cts gw gh) (ex - 1) (ey + 1)
               \<and> cell (renderSpec cts gw gh) (ex - 1) (ey - 1)
                   = cell (renderSpec cts gw gh) (ex + 1) (ey + 1)
            then cell (renderSpec cts gw gh) (ex - 1) (ey - 1) else None))
   \<and> (\<forall>rx ry. rx < gw * 2 + 1 \<and> ry < gh * 2 + 1
              \<and> cell (renderSpec cts gw gh) rx ry \<noteq> None \<longrightarrow>
         (odd rx \<and> odd ry)
         \<or> (\<exists>ex ey. even_pos (gw * 2 + 1) (gh * 2 + 1) (ex, ey)
                \<and> ((rx, ry) = (ex, ey - 1) \<or> (rx, ry) = (ex - 1, ey) \<or> (rx, ry) = (ex, ey))))
   \<and> (\<forall>x y. x < gw \<and> y < gh
            \<and> list_all (\<lambda>c. owner cts c \<noteq> owner cts (int x, int y))
                 (neighbours8 (int x, int y)) \<longrightarrow>
         cell (renderSpec cts gw gh) (x * 2) (y * 2) = None
         \<and> cell (renderSpec cts gw gh) (x * 2) (y * 2 + 1) = None
         \<and> cell (renderSpec cts gw gh) (x * 2) (Suc y * 2) = None
         \<and> cell (renderSpec cts gw gh) (x * 2 + 1) (y * 2) = None
         \<and> cell (renderSpec cts gw gh) (x * 2 + 1) (Suc y * 2) = None
         \<and> cell (renderSpec cts gw gh) (Suc x * 2) (y * 2) = None
         \<and> cell (renderSpec cts gw gh) (Suc x * 2) (y * 2 + 1) = None
         \<and> cell (renderSpec cts gw gh) (Suc x * 2) (Suc y * 2) = None)
   \<and> (\<forall>x y k. Suc (Suc x) < gw \<and> Suc (Suc y) < gh
            \<and> owner cts (int x, int y) = Some k \<and> owner cts (int (Suc x), int y) = Some k
            \<and> owner cts (int x, int (Suc y)) = Some k
            \<and> owner cts (int (Suc x), int (Suc y)) = Some k \<longrightarrow>
         cell (renderSpec cts gw gh) (Suc x * 2) (Suc y * 2) = Some k
         \<and> cell (renderSpec cts gw gh) (Suc x * 2) (y * 2 + 1) = Some k
         \<and> cell (renderSpec cts gw gh) (Suc x * 2) (Suc y * 2 + 1) = Some k
         \<and> cell (renderSpec cts gw gh) (x * 2 + 1) (Suc y * 2) = Some k
         \<and> cell (renderSpec cts gw gh) (Suc x * 2 + 1) (Suc y * 2) = Some k)"
proof (intro conjI allI impI ballI)
  let ?w = "gw * 2 + 1" and ?h = "gh * 2 + 1"
  let ?G = "renderSpec cts gw gh"
  note rc = renderSpec_cell [of _ gw _ gh cts]
  show "renderMap cts gw gh = Some ?G" using v by (rule renderMap_spec)
  show "length ?G = gh * 2 + 1" by (simp add: renderSpec_def)
  show "list_all (\<lambda>row. length row = gw * 2 + 1) ?G"
    by (simp add: renderSpec_def list_all_iff)
  {
    fix x y assume "x < gw \<and> y < gh"
    then have "x * 2 + 1 < ?w" "y * 2 + 1 < ?h" by simp_all
    then show "cell ?G (x * 2 + 1) (y * 2 + 1) = owner cts (int x, int y)"
      by (simp only: rc renderCell_tile)
  }
  {
    fix ct c assume d: "distinct (concat (map tiles cts))" and ct: "ct \<in> set cts"
      and c: "c \<in> set (tiles ct)"
    from v ct c have vc: "valid_tile gw gh c" by (auto simp: list_all_iff)
    then have b: "nat (fst c) * 2 + 1 < ?w" "nat (snd c) * 2 + 1 < ?h"
      and e: "int (nat (fst c)) = fst c" "int (nat (snd c)) = snd c"
      by (auto simp: valid_tile_def)
    have "cell ?G (nat (fst c) * 2 + 1) (nat (snd c) * 2 + 1) = owner cts c"
      using b by (simp only: rc renderCell_tile e prod.collapse)
    also have "\<dots> = Some (index ct)" using d ct c by (rule owner_distinct)
    finally show "cell ?G (nat (fst c) * 2 + 1) (nat (snd c) * 2 + 1) = Some (index ct)" .
  }
  {
    fix ex ey assume p: "even_pos ?w ?h (ex, ey)"
    then have b: "ex < ?w" "ex - 1 < ?w" "ex + 1 < ?w" "ey < ?h" "ey - 1 < ?h" "ey + 1 < ?h"
      unfolding even_pos_def fst_conv snd_conv by linarith+
    note ep = even_pos_cells [OF p, of cts]
    have ul: "cell ?G (ex - 1) (ey - 1) = tileAt cts (ex - 1) (ey - 1)"
      using b by (simp only: rc ep)
    have ur: "cell ?G (ex + 1) (ey - 1) = tileAt cts (ex + 1) (ey - 1)"
      using b by (simp only: rc ep)
    have dl: "cell ?G (ex - 1) (ey + 1) = tileAt cts (ex - 1) (ey + 1)"
      using b by (simp only: rc ep)
    have dr: "cell ?G (ex + 1) (ey + 1) = tileAt cts (ex + 1) (ey + 1)"
      using b by (simp only: rc ep)
    show "cell ?G ex (ey - 1) =
           (if cell ?G (ex - 1) (ey - 1) \<noteq> None
               \<and> cell ?G (ex - 1) (ey - 1) = cell ?G (ex + 1) (ey - 1)
            then cell ?G (ex - 1) (ey - 1) else None)"
      unfolding ul ur using b by (simp only: rc ep upBorder_def)
    show "cell ?G (ex - 1) ey =
           (if cell ?G (ex - 1) (ey - 1) \<noteq> None
               \<and> cell ?G (ex - 1) (ey - 1) = cell ?G (ex - 1) (ey + 1)
            then cell ?G (ex - 1) (ey - 1) else None)"
      unfolding ul dl using b by (simp only: rc ep leftBorder_def)
    show "cell ?G ex ey =
           (if cell ?G (ex - 1) (ey - 1) \<noteq> None
               \<and> cell ?G (ex - 1) (ey - 1) = cell ?G (ex + 1) (ey - 1)
               \<and> cell ?G (ex - 1) (ey - 1) = cell ?G (ex - 1) (ey + 1)
               \<and> cell ?G (ex - 1) (ey - 1) = cell ?G (ex + 1) (ey + 1)
            then cell ?G (ex - 1) (ey - 1) else None)"
      unfolding ul ur dl dr using b by (simp only: rc ep corner_def)
  }
  {
    fix rx ry assume a: "rx < ?w \<and> ry < ?h \<and> cell ?G rx ry \<noteq> None"
    then have x: "rx < ?w" and y: "ry < ?h" and nn: "cell ?G rx ry \<noteq> None"
      by simp_all
    from nn have "renderCell cts ?w ?h rx ry \<noteq> None"
      unfolding renderSpec_cell [OF x y] .
    then show "(odd rx \<and> odd ry)
         \<or> (\<exists>ex ey. even_pos ?w ?h (ex, ey)
                \<and> ((rx, ry) = (ex, ey - 1) \<or> (rx, ry) = (ex - 1, ey) \<or> (rx, ry) = (ex, ey)))"
      by (rule assigned_cell_kind)
  }
  {
    fix x y assume a: "x < gw \<and> y < gh
            \<and> list_all (\<lambda>c. owner cts c \<noteq> owner cts (int x, int y))
                 (neighbours8 (int x, int y))"
    then have n: "list_all (\<lambda>c. owner cts c \<noteq> owner cts (int x, int y))
                 (neighbours8 (int x, int y))" by simp
    from a have b: "x * 2 < ?w" "x * 2 + 1 < ?w" "Suc x * 2 < ?w"
      "y * 2 < ?h" "y * 2 + 1 < ?h" "Suc y * 2 < ?h" by simp_all
    note iso = isolated_cells [OF n, of gw gh]
    show "cell ?G (x * 2) (y * 2) = None" using b by (simp only: rc iso)
    show "cell ?G (x * 2) (y * 2 + 1) = None" using b by (simp only: rc iso)
    show "cell ?G (x * 2) (Suc y * 2) = None" using b by (simp only: rc iso)
    show "cell ?G (x * 2 + 1) (y * 2) = None" using b by (simp only: rc iso)
    show "cell ?G (x * 2 + 1) (Suc y * 2) = None" using b by (simp only: rc iso)
    show "cell ?G (Suc x * 2) (y * 2) = None" using b by (simp only: rc iso)
    show "cell ?G (Suc x * 2) (y * 2 + 1) = None" using b by (simp only: rc iso)
    show "cell ?G (Suc x * 2) (Suc y * 2) = None" using b by (simp only: rc iso)
  }
  {
    fix x y k assume a: "Suc (Suc x) < gw \<and> Suc (Suc y) < gh
            \<and> owner cts (int x, int y) = Some k \<and> owner cts (int (Suc x), int y) = Some k
            \<and> owner cts (int x, int (Suc y)) = Some k
            \<and> owner cts (int (Suc x), int (Suc y)) = Some k"
    then have o: "owner cts (int x, int y) = Some k" "owner cts (int (Suc x), int y) = Some k"
      "owner cts (int x, int (Suc y)) = Some k" "owner cts (int (Suc x), int (Suc y)) = Some k"
      and i: "Suc (Suc x) < gw" "Suc (Suc y) < gh" by simp_all
    from i have b: "x * 2 + 1 < ?w" "Suc x * 2 < ?w" "Suc x * 2 + 1 < ?w"
      "y * 2 + 1 < ?h" "Suc y * 2 < ?h" "Suc y * 2 + 1 < ?h" by simp_all
    note bl = block_cells [OF o i]
    show "cell ?G (Suc x * 2) (Suc y * 2) = Some k" using b by (simp only: rc bl)
    show "cell ?G (Suc x * 2) (y * 2 + 1) = Some k" using b by (simp only: rc bl)
    show "cell ?G (Suc x * 2) (Suc y * 2 + 1) = Some k" using b by (simp only: rc bl)
    show "cell ?G (x * 2 + 1) (Suc y * 2) = Some k" using b by (simp only: rc bl)
    show "cell ?G (Suc x * 2 + 1) (Suc y * 2) = Some k" using b by (simp only: rc bl)
  }
qed


theorem render_grid_witness:
  "list_all (\<lambda>ct. list_all (valid_tile 4 4) (tiles ct)) block_tiles
   \<and> distinct (concat (map tiles block_tiles))
   \<and> renderSpec block_tiles 4 4 =
       [[None, None, None, None, None, None, None, None, None],
        [None, None, None, None, None, None, None, None, None],
        [None, None, None, None, None, None, None, None, None],
        [None, None, None, Some 0, Some 0, Some 0, None, None, None],
        [None, None, None, Some 0, Some 0, Some 0, None, None, None],
        [None, None, None, Some 0, Some 0, Some 0, None, None, None],
        [None, None, None, None, None, None, None, None, None],
        [None, None, None, None, None, None, None, None, None],
        [None, None, None, None, None, None, None, None, None]]
   \<and> Suc (Suc 1) < (4::nat)
   \<and> owner block_tiles (int 1, int 1) = Some 0
   \<and> cell (renderSpec block_tiles 4 4) (Suc 1 * 2) (Suc 1 * 2) = Some 0
   \<and> cell (renderSpec block_tiles 4 4) (Suc 1 * 2 + 1) (Suc 1 * 2) = Some 0
   \<and> list_all (\<lambda>ct. list_all (valid_tile 3 3) (tiles ct)) lone_tile
   \<and> list_all (\<lambda>c. owner lone_tile c \<noteq> owner lone_tile (int 1, int 1)) (neighbours8 (int 1, int 1))
   \<and> renderSpec lone_tile 3 3 =
       [[None, None, None, None, None, None, None],
        [None, None, None, None, None, None, None],
        [None, None, None, None, None, None, None],
        [None, None, None, Some 0, None, None, None],
        [None, None, None, None, None, None, None],
        [None, None, None, None, None, None, None],
        [None, None, None, None, None, None, None]]
   \<and> cell (renderSpec lone_tile 3 3) (Suc 1 * 2) (1 * 2 + 1) = None"
proof -
  have vb: "list_all (\<lambda>ct. list_all (valid_tile 4 4) (tiles ct)) block_tiles"
    by (simp add: block_tiles_def valid_tile_def)
  have db: "distinct (concat (map tiles block_tiles))"
    by (simp add: block_tiles_def)
  have vl: "list_all (\<lambda>ct. list_all (valid_tile 3 3) (tiles ct)) lone_tile"
    by (simp add: lone_tile_def valid_tile_def)
  have ob: "owner block_tiles (int 1, int 1) = Some 0" "owner block_tiles (int (Suc 1), int 1) = Some 0"
    "owner block_tiles (int 1, int (Suc 1)) = Some 0"
    "owner block_tiles (int (Suc 1), int (Suc 1)) = Some 0"
    by (simp_all add: block_tiles_def)
  have nl: "list_all (\<lambda>c. owner lone_tile c \<noteq> owner lone_tile (int 1, int 1))
      (neighbours8 (int 1, int 1))"
    by (simp add: lone_tile_def neighbours8_def)
  have mb: "renderMap block_tiles 4 4 = Some
       [[None, None, None, None, None, None, None, None, None],
        [None, None, None, None, None, None, None, None, None],
        [None, None, None, None, None, None, None, None, None],
        [None, None, None, Some 0, Some 0, Some 0, None, None, None],
        [None, None, None, Some 0, Some 0, Some 0, None, None, None],
        [None, None, None, Some 0, Some 0, Some 0, None, None, None],
        [None, None, None, None, None, None, None, None, None],
        [None, None, None, None, None, None, None, None, None],
        [None, None, None, None, None, None, None, None, None]]"
    by code_simp
  have ml: "renderMap lone_tile 3 3 = Some
       [[None, None, None, None, None, None, None],
        [None, None, None, None, None, None, None],
        [None, None, None, None, None, None, None],
        [None, None, None, Some 0, None, None, None],
        [None, None, None, None, None, None, None],
        [None, None, None, None, None, None, None],
        [None, None, None, None, None, None, None]]"
    by code_simp
  note tb = render_grid [OF vb]
  note tl = render_grid [OF vl]
  from tb mb have sb: "renderSpec block_tiles 4 4 =
       [[None, None, None, None, None, None, None, None, None],
        [None, None, None, None, None, None, None, None, None],
        [None, None, None, None, None, None, None, None, None],
        [None, None, None, Some 0, Some 0, Some 0, None, None, None],
        [None, None, None, Some 0, Some 0, Some 0, None, None, None],
        [None, None, None, Some 0, Some 0, Some 0, None, None, None],
        [None, None, None, None, None, None, None, None, None],
        [None, None, None, None, None, None, None, None, None],
        [None, None, None, None, None, None, None, None, None]]"
    by simp
  from tl ml have sl: "renderSpec lone_tile 3 3 =
       [[None, None, None, None, None, None, None],
        [None, None, None, None, None, None, None],
        [None, None, None, None, None, None, None],
        [None, None, None, Some 0, None, None, None],
        [None, None, None, None, None, None, None],
        [None, None, None, None, None, None, None],
        [None, None, None, None, None, None, None]]"
    by simp
  have i: "Suc (Suc 1) < (4::nat)" by simp
  note blk = tb [THEN conjunct2, THEN conjunct2, THEN conjunct2, THEN conjunct2,
      THEN conjunct2, THEN conjunct2, THEN conjunct2, THEN conjunct2, rule_format, of 1 1 0]
  note iso = tl [THEN conjunct2, THEN conjunct2, THEN conjunct2, THEN conjunct2,
      THEN conjunct2, THEN conjunct2, THEN conjunct2, THEN conjunct1, rule_format, of 1 1]
  have cb: "cell (renderSpec block_tiles 4 4) (Suc 1 * 2) (Suc 1 * 2) = Some 0"
    "cell (renderSpec block_tiles 4 4) (Suc 1 * 2 + 1) (Suc 1 * 2) = Some 0"
    using blk i ob by simp_all
  have cl: "cell (renderSpec lone_tile 3 3) (Suc 1 * 2) (1 * 2 + 1) = None"
    using iso nl by simp
  from vb db sb i ob(1) cb vl nl sl cl show ?thesis by (intro conjI)
qed

end
